theory Spec2Isabelle
  imports Main "HOL-Library.Word" "HOL-Library.Char_ord" "HOL-Library.List_Lexorder"
    "HOL-Library.Product_Lexorder"
begin

unbundle bit_operations_syntax

section \<open>Constants of the two programs\<close>

text \<open>
  The repository holds two programs: the shared-memory one (OpenMP, \<open>src/unnamed/part_000\<close>)
  and the distributed one (MPI, \<open>src/wordfreq_mpi.c\<close>). Definitions taken from the OpenMP
  file carry the suffix \<open>_omp\<close> when the MPI file has a function of the same name.
\<close>

definition MAX_WORD_LEN :: nat where
  "MAX_WORD_LEN = 100"

definition HASH_TABLE_SIZE :: nat where
  "HASH_TABLE_SIZE = 16384"

definition MAX_BUFFER_SIZE :: int where
  "MAX_BUFFER_SIZE = 2 ^ 26"

definition CHUNK_SIZE :: nat where
  "CHUNK_SIZE = 8192"

section \<open>C strings\<close>

text \<open>
  A byte is a \<^typ>\<open>char\<close>. A value of type \<^typ>\<open>string\<close> stands for the memory a
  \<open>char *\<close> points to: the C string it denotes ends before the first NUL byte, and the end
  of the list counts as a terminator too. Every string function below stops there, as
  the C library does.
\<close>

definition NUL :: char where
  "NUL = CHR 0x00"

definition LF :: char where
  "LF = CHR 0x0A"

definition CR :: char where
  "CR = CHR 0x0D"

definition COLON :: char where
  "COLON = CHR '':''"

definition peek :: "string \<Rightarrow> char" where
  "peek s = (case s of [] \<Rightarrow> NUL | c # _ \<Rightarrow> c)"

definition c_str :: "string \<Rightarrow> string" where
  "c_str s = takeWhile (\<lambda>c. c \<noteq> NUL) s"

text \<open>\<open>tolower\<close> in the "C" locale (neither program calls \<open>setlocale\<close>): the letters
  \<open>A\<close> to \<open>Z\<close> (65 to 90) get bit 5 set, which adds 32; every other byte is unchanged.\<close>

definition tolower :: "char \<Rightarrow> char" where
  "tolower c = (if (65::nat) \<le> of_char c \<and> of_char c \<le> (90::nat)
                then (case c of Char b0 b1 b2 b3 b4 b5 b6 b7 \<Rightarrow> Char b0 b1 b2 b3 b4 True b6 b7)
                else c)"

text \<open>FNV-1a over the folded bytes, on \<open>unsigned int\<close> (32 bits, wrapping).\<close>

fun fnv1a :: "32 word \<Rightarrow> string \<Rightarrow> 32 word" where
  "fnv1a h [] = h"
| "fnv1a h (c # cs) =
     (if c = NUL then h
      else fnv1a ((h XOR of_nat (of_char (tolower c))) * 16777619) cs)"

definition hash :: "string \<Rightarrow> nat \<Rightarrow> nat" where
  "hash w sz = unat (fnv1a 2166136261 w) mod sz"

text \<open>\<open>strncasecmp\<close> and \<open>strcmp\<close>: the difference of the first pair of bytes that
  differ (folded for \<open>strncasecmp\<close>), read as \<open>unsigned char\<close>; 0 when the strings end
  together or, for \<open>strncasecmp\<close>, when \<open>n\<close> bytes were equal.\<close>

fun strncasecmp :: "string \<Rightarrow> string \<Rightarrow> nat \<Rightarrow> int" where
  "strncasecmp s t 0 = 0"
| "strncasecmp s t (Suc n) =
     (let a = tolower (peek s); b = tolower (peek t) in
      if a \<noteq> b then int (of_char a) - int (of_char b)
      else if a = NUL then 0
      else strncasecmp (tl s) (tl t) n)"

fun strcmp :: "string \<Rightarrow> string \<Rightarrow> int" where
  "strcmp [] t = - int (of_char (peek t))"
| "strcmp (c # cs) t =
     (if c \<noteq> peek t then int (of_char c) - int (of_char (peek t))
      else if c = NUL then 0
      else strcmp cs (tl t))"

fun is_delimiter :: "char \<Rightarrow> string \<Rightarrow> bool" where
  "is_delimiter c [] = False"
| "is_delimiter c (d # ds) =
     (if d = NUL then False else if c = d then True else is_delimiter c ds)"

text \<open>The maximal non-empty runs of bytes that do not satisfy \<open>P\<close>, in order: this is what
  splitting at delimiters means, for \<open>strtok\<close> and for the tokens of the specification.\<close>

function runs :: "(char \<Rightarrow> bool) \<Rightarrow> string \<Rightarrow> string list" where
  "runs P bs =
     (let rest = dropWhile P bs in
      if rest = [] then []
      else takeWhile (\<lambda>c. \<not> P c) rest # runs P (dropWhile (\<lambda>c. \<not> P c) rest))"
  by pat_completeness auto
termination
proof (relation "measure (\<lambda>(P, bs). length bs)")
  show "wf (measure (\<lambda>(P, bs). length bs))"
    by simp
next
  fix P :: "char \<Rightarrow> bool" and bs rest :: string
  assume r: "rest = dropWhile P bs" and ne: "rest \<noteq> []"
  have "\<not> P (hd rest)"
    using r ne by (metis hd_dropWhile)
  then have "length (dropWhile (\<lambda>c. \<not> P c) rest) < length rest"
    using ne by (cases rest) (auto simp: le_imp_less_Suc length_dropWhile_le)
  also have "length rest \<le> length bs"
    using r by (simp add: length_dropWhile_le)
  finally show "((P, dropWhile (\<lambda>c. \<not> P c) rest), (P, bs)) \<in> measure (\<lambda>(P, bs). length bs)"
    by simp
qed

declare runs.simps [simp del]

section \<open>The hash table\<close>

text \<open>
  \<open>WordNode\<close> is the chain node; the \<open>next\<close> pointer is the tail of the list that models
  the chain. The OpenMP node has one more field, \<open>hash\<close>. \<open>HashMap\<close> is the same struct in
  both files: an array of \<open>size\<close> chains and the number of nodes.
\<close>

record WordNode =
  word :: string
  count :: int

record WordNode_omp = WordNode +
  hash_omp :: nat

record 'n HashMap =
  buckets :: "'n list list"
  size_hm :: nat
  items :: int

definition create_hashmap :: "nat \<Rightarrow> 'n HashMap" where
  "create_hashmap sz = \<lparr>buckets = replicate sz [], size_hm = sz, items = 0\<rparr>"

text \<open>The chain scan of \<open>insert_word\<close>: the first node whose word matches gets its count
  incremented (\<open>Some\<close> the updated chain); \<open>None\<close> when the scan reaches the end.\<close>

fun chain_incr :: "'a WordNode_scheme list \<Rightarrow> string \<Rightarrow> 'a WordNode_scheme list option" where
  "chain_incr [] w = None"
| "chain_incr (n # ns) w =
     (if strncasecmp (word n) w MAX_WORD_LEN = 0 then Some (n\<lparr>count := count n + 1\<rparr> # ns)
      else map_option ((#) n) (chain_incr ns w))"

text \<open>\<open>insert_word\<close> of the MPI file: the new node holds the first 99 bytes of the word
  (\<open>strncpy\<close> with \<open>MAX_WORD_LEN - 1\<close>, then the terminator), and is put at the head of
  its chain. The bucket index is below \<open>size\<close> whenever \<open>size\<close> is positive.\<close>

definition insert_word :: "WordNode HashMap \<Rightarrow> string \<Rightarrow> WordNode HashMap" where
  "insert_word m w =
     (let h = hash w (size_hm m) in
      case chain_incr (buckets m ! h) w of
        Some chain \<Rightarrow> m\<lparr>buckets := (buckets m)[h := chain]\<rparr>
      | None \<Rightarrow>
          m\<lparr>buckets := (buckets m)[h := \<lparr>word = take (MAX_WORD_LEN - 1) (c_str w), count = 1\<rparr>
                                          # (buckets m ! h)],
            items := items m + 1\<rparr>)"

text \<open>\<open>insert_word\<close> of the OpenMP file: the new node holds a \<open>strdup\<close> of the word and
  the bucket index.\<close>

definition insert_word_omp :: "WordNode_omp HashMap \<Rightarrow> string \<Rightarrow> WordNode_omp HashMap" where
  "insert_word_omp m w =
     (let h = hash w (size_hm m) in
      case chain_incr (buckets m ! h) w of
        Some chain \<Rightarrow> m\<lparr>buckets := (buckets m)[h := chain]\<rparr>
      | None \<Rightarrow>
          m\<lparr>buckets := (buckets m)[h := \<lparr>word = c_str w, count = 1, hash_omp = h\<rparr>
                                          # (buckets m ! h)],
            items := items m + 1\<rparr>)"

text \<open>The nodes of a table in the order every traversal of the sources visits them:
  bucket 0 to bucket \<open>size - 1\<close>, each chain from its head.\<close>

definition nodes :: "'n HashMap \<Rightarrow> 'n list" where
  "nodes m = concat (map (\<lambda>i. buckets m ! i) [0..<size_hm m])"

section \<open>The tokenizer and the per-file aggregation\<close>

text \<open>
  The loop body of \<open>process_file\<close> and \<open>process_file_sync\<close> is the same text in both
  files; \<open>scan_byte\<close> is that body for one byte \<open>c\<close>, the table and its insertion being
  parameters. The state is the word buffer (its first \<open>word_len\<close> bytes) and the table.
\<close>

definition scan_byte :: "('m \<Rightarrow> string \<Rightarrow> 'm) \<Rightarrow> string \<Rightarrow> string \<times> 'm \<Rightarrow> char \<Rightarrow> string \<times> 'm" where
  "scan_byte ins delims st c =
     (case st of (wordbuf, m) \<Rightarrow>
        if is_delimiter c delims \<or> c = LF \<or> c = CR then
          (if 0 < length wordbuf then ([], ins m wordbuf) else (wordbuf, m))
        else if length wordbuf < MAX_WORD_LEN - 1 then (wordbuf @ [c], m)
        else (wordbuf, m))"

text \<open>After the loop a pending word is inserted.\<close>

definition scan_finish :: "('m \<Rightarrow> string \<Rightarrow> 'm) \<Rightarrow> string \<times> 'm \<Rightarrow> 'm" where
  "scan_finish ins st = (case st of (wordbuf, m) \<Rightarrow> if 0 < length wordbuf then ins m wordbuf else m)"

text \<open>The token sequence: the C strings handed to \<open>insert_word\<close>, in order.\<close>

definition tokenize :: "string \<Rightarrow> string \<Rightarrow> string list" where
  "tokenize delims bytes =
     scan_finish (\<lambda>out w. out @ [c_str w])
       (foldl (scan_byte (\<lambda>out w. out @ [c_str w]) delims) ([], []) bytes)"

text \<open>
  A file, as the program meets it: \<open>fopen\<close> fails, or it succeeds and the reads deliver
  some bytes and then stop, at the end of the file or on a read error (the flag, which
  is what \<open>ferror\<close> reports afterwards).
\<close>

datatype input_file = Unopenable | Opened string bool

type_synonym filesystem = "string \<Rightarrow> input_file"

text \<open>\<open>fread\<close> with a request of \<open>n\<close> bytes returns full chunks until the bytes run out.\<close>

function fread_chunks :: "nat \<Rightarrow> string \<Rightarrow> string list" where
  "fread_chunks n bs = (if n = 0 \<or> bs = [] then [] else take n bs # fread_chunks n (drop n bs))"
  by pat_completeness auto
termination
  by (relation "measure (\<lambda>(n, bs). length bs)") auto

declare fread_chunks.simps [simp del]

definition process_file :: "filesystem \<Rightarrow> string \<Rightarrow> string \<Rightarrow> WordNode HashMap option" where
  "process_file fs filename delims =
     (case fs filename of
        Unopenable \<Rightarrow> None
      | Opened bytes err \<Rightarrow>
          let st = foldl (\<lambda>st chunk. foldl (scan_byte insert_word delims) st chunk)
                     ([], create_hashmap HASH_TABLE_SIZE) (fread_chunks (CHUNK_SIZE - 1) bytes);
              m = scan_finish insert_word st
          in if err then None else Some m)"

text \<open>The OpenMP file reads byte by byte with \<open>fgetc\<close> and never looks at \<open>ferror\<close>.\<close>

definition process_file_sync :: "filesystem \<Rightarrow> string \<Rightarrow> string \<Rightarrow> WordNode_omp HashMap option" where
  "process_file_sync fs filename delimiters =
     (case fs filename of
        Unopenable \<Rightarrow> None
      | Opened bytes err \<Rightarrow>
          Some (scan_finish insert_word_omp
                  (foldl (scan_byte insert_word_omp delimiters) ([], create_hashmap HASH_TABLE_SIZE) bytes)))"

section \<open>Merging\<close>

text \<open>\<open>merge_hashmaps\<close> of the MPI file: nothing for a NULL source; otherwise the word of
  every source node is inserted \<open>count\<close> times.\<close>

definition merge_hashmaps :: "WordNode HashMap \<Rightarrow> WordNode HashMap option \<Rightarrow> WordNode HashMap" where
  "merge_hashmaps dest src =
     (case src of
        None \<Rightarrow> dest
      | Some s \<Rightarrow>
          foldl (\<lambda>d node. ((\<lambda>d'. insert_word d' (word node)) ^^ nat (count node)) d) dest (nodes s))"

text \<open>\<open>merge_hashmaps\<close> of the OpenMP file: for each source node the destination chain
  is searched with \<open>strcmp\<close>; the first node with the same bytes gets the count added,
  and when there is none a copy of the source node is put at the head of the chain.\<close>

fun chain_add_omp :: "WordNode_omp list \<Rightarrow> WordNode_omp \<Rightarrow> WordNode_omp list option" where
  "chain_add_omp [] current = None"
| "chain_add_omp (dest_node # rest) current =
     (if strcmp (word dest_node) (word current) = 0
      then Some (dest_node\<lparr>count := count dest_node + count current\<rparr> # rest)
      else map_option ((#) dest_node) (chain_add_omp rest current))"

definition merge_node_omp :: "WordNode_omp HashMap \<Rightarrow> WordNode_omp \<Rightarrow> WordNode_omp HashMap" where
  "merge_node_omp dest current =
     (let h = hash (word current) (size_hm dest) in
      case chain_add_omp (buckets dest ! h) current of
        Some chain \<Rightarrow> dest\<lparr>buckets := (buckets dest)[h := chain]\<rparr>
      | None \<Rightarrow>
          dest\<lparr>buckets := (buckets dest)[h := \<lparr>word = c_str (word current), count = count current,
                                                 hash_omp = hash_omp current\<rparr> # (buckets dest ! h)],
               items := items dest + 1\<rparr>)"

definition merge_hashmaps_omp :: "WordNode_omp HashMap \<Rightarrow> WordNode_omp HashMap \<Rightarrow> WordNode_omp HashMap" where
  "merge_hashmaps_omp dest src = foldl merge_node_omp dest (nodes src)"

section \<open>The wire encoding (MPI file)\<close>

text \<open>The ways the MPI program ends in \<open>MPI_Abort\<close> or with the usage message.\<close>

datatype abort = BufferSizeExceedsMax | SerializeOverflow | GatheredSizeExceedsMax | Usage

text \<open>\<open>%d\<close>: the decimal digits of an \<open>int\<close>, with a minus sign when negative.\<close>

definition digit_char :: "nat \<Rightarrow> char" where
  "digit_char d = char_of (48 + d)"

function digits :: "nat \<Rightarrow> string" where
  "digits n = (if n < 10 then [digit_char n] else digits (n div 10) @ [digit_char (n mod 10)])"
  by pat_completeness auto
termination
  by (relation "measure id") auto

declare digits.simps [simp del]

definition printf_d :: "int \<Rightarrow> string" where
  "printf_d i = (if i < 0 then CHR ''-'' # digits (nat (- i)) else digits (nat i))"

text \<open>What \<open>snprintf\<close> with the format \<open>"%s:%d\n"\<close> produces for a node.\<close>

definition record_of :: "WordNode \<Rightarrow> string" where
  "record_of node = c_str (word node) @ [COLON] @ printf_d (count node) @ [LF]"

text \<open>The loop of \<open>serialize_hashmap\<close> over the nodes: \<open>len\<close> is the buffer size, the state
  is the bytes written so far and their number. A record that does not leave room
  (\<open>written + len >= *length\<close>) aborts the run.\<close>

fun serialize_nodes :: "int \<Rightarrow> WordNode list \<Rightarrow> string \<times> int \<Rightarrow> abort + string \<times> int" where
  "serialize_nodes len [] (buf, written) = Inr (buf, written)"
| "serialize_nodes len (node # rest) (buf, written) =
     (let r = record_of node in
      if written + int (length r) \<ge> len then Inl SerializeOverflow
      else serialize_nodes len rest (buf @ r, written + int (length r)))"

text \<open>The result is the buffer that is sent, \<open>*length\<close> bytes of it: the records, or one
  NUL byte for a table without nodes.\<close>

definition serialize_hashmap :: "WordNode HashMap \<Rightarrow> abort + string \<times> int" where
  "serialize_hashmap m =
     (let len = items m * (int MAX_WORD_LEN + 12) in
      if len > MAX_BUFFER_SIZE then Inl BufferSizeExceedsMax
      else case serialize_nodes len (nodes m) ([], 0) of
             Inl e \<Rightarrow> Inl e
           | Inr (buf, written) \<Rightarrow> Inr (if written = 0 then ([NUL], 1) else (buf, written)))"

text \<open>\<open>atoi\<close>: white space, an optional sign, then decimal digits up to the first other
  byte. (A value outside \<open>int\<close> is undefined in C; the model returns the number.)\<close>

definition isspace :: "char \<Rightarrow> bool" where
  "isspace c \<longleftrightarrow> c = CHR '' '' \<or> ((9::nat) \<le> of_char c \<and> of_char c \<le> (13::nat))"

definition isdigit :: "char \<Rightarrow> bool" where
  "isdigit c \<longleftrightarrow> (48::nat) \<le> of_char c \<and> of_char c \<le> (57::nat)"

definition atoi :: "string \<Rightarrow> int" where
  "atoi s =
     (let s1 = dropWhile isspace (c_str s);
          neg = (peek s1 = CHR ''-'');
          s2 = (if peek s1 = CHR ''-'' \<or> peek s1 = CHR ''+'' then tl s1 else s1);
          v = foldl (\<lambda>a c. 10 * a + (int (of_char c) - 48)) 0 (takeWhile isdigit s2)
      in if neg then - v else v)"

text \<open>
  \<open>deserialize_hashmap\<close>. \<open>strndup\<close> copies the region up to its first NUL byte;
  \<open>strtok\<close> with the delimiter \<open>"\n"\<close> yields the maximal non-empty runs of other bytes
  (\<open>records\<close>). For one line, \<open>strchr\<close> finds the first colon: the word is what precedes it
  (\<open>record_word\<close>), the count is \<open>atoi\<close> of what follows (\<open>record_count\<close>).
\<close>

definition records :: "string \<Rightarrow> int \<Rightarrow> string list" where
  "records buffer len = runs (\<lambda>c. c = LF) (c_str (take (nat len) buffer))"

definition record_word :: "string \<Rightarrow> string" where
  "record_word line = takeWhile (\<lambda>c. c \<noteq> COLON) line"

definition record_count :: "string \<Rightarrow> int" where
  "record_count line = atoi (tl (dropWhile (\<lambda>c. c \<noteq> COLON) line))"

definition deserialize_record :: "WordNode HashMap \<Rightarrow> string \<Rightarrow> WordNode HashMap" where
  "deserialize_record m line =
     (if COLON \<in> set line then
        (if record_count line > 0
         then ((\<lambda>d. insert_word d (record_word line)) ^^ nat (record_count line)) m
         else m)
      else m)"

definition deserialize_hashmap :: "WordNode HashMap \<Rightarrow> string \<Rightarrow> int \<Rightarrow> WordNode HashMap" where
  "deserialize_hashmap m buffer len =
     (if len \<le> 1 \<and> peek buffer = NUL then m
      else foldl deserialize_record m (records buffer len))"

section \<open>Ranking\<close>

text \<open>
  \<open>WordFreq\<close>, the row type of the OpenMP file, has the fields \<open>word\<close> and \<open>count\<close>, as the
  node of the MPI file has; both are the record \<open>WordNode\<close>.
\<close>

type_synonym WordFreq = WordNode

definition compare_words :: "WordNode \<Rightarrow> WordNode \<Rightarrow> int" where
  "compare_words wa wb =
     (if count wb \<noteq> count wa then count wb - count wa
      else strncasecmp (word wa) (word wb) MAX_WORD_LEN)"

definition compare_words_omp :: "WordFreq \<Rightarrow> WordFreq \<Rightarrow> int" where
  "compare_words_omp wa wb =
     (if count wb \<noteq> count wa then count wb - count wa
      else strcmp (word wa) (word wb))"

text \<open>\<open>qsort\<close> is a library function; it is modelled by insertion sort with the comparison
  function. On rows no two of which compare equal, every sorting procedure gives the same
  result (\<open>sorted_unique\<close> below).\<close>

fun insert_sorted :: "('a \<Rightarrow> 'a \<Rightarrow> int) \<Rightarrow> 'a \<Rightarrow> 'a list \<Rightarrow> 'a list" where
  "insert_sorted cmp x [] = [x]"
| "insert_sorted cmp x (y # ys) = (if cmp x y \<le> 0 then x # y # ys else y # insert_sorted cmp x ys)"

definition qsort :: "('a \<Rightarrow> 'a \<Rightarrow> int) \<Rightarrow> 'a list \<Rightarrow> 'a list" where
  "qsort cmp xs = foldr (insert_sorted cmp) xs []"

text \<open>\<open>print_results\<close>: the rows that are printed, in order. The row array has \<open>items\<close>
  elements and is filled from all nodes (\<open>items\<close> is the number of nodes in every table the
  programs build); the MPI file copies at most 99 bytes of each word.\<close>

definition print_results :: "WordNode HashMap \<Rightarrow> int \<Rightarrow> WordNode list" where
  "print_results m top_n =
     take (nat (min (items m) top_n))
       (qsort compare_words
          (map (\<lambda>current. \<lparr>word = take (MAX_WORD_LEN - 1) (c_str (word current)), count = count current\<rparr>)
             (nodes m)))"

definition print_results_omp :: "WordNode_omp HashMap \<Rightarrow> int \<Rightarrow> WordFreq list" where
  "print_results_omp m top_n =
     take (nat (min (items m) top_n))
       (qsort compare_words_omp
          (map (\<lambda>current. \<lparr>word = word current, count = count current\<rparr>) (nodes m)))"

section \<open>The drivers\<close>

text \<open>\<open>process_files_sync\<close> of the OpenMP file.\<close>

definition merge_file_omp :: "filesystem \<Rightarrow> string \<Rightarrow> WordNode_omp HashMap \<Rightarrow> string \<Rightarrow> WordNode_omp HashMap" where
  "merge_file_omp fs delimiters m filename =
     (case process_file_sync fs filename delimiters of
        None \<Rightarrow> m
      | Some file_map \<Rightarrow> merge_hashmaps_omp m file_map)"

definition process_files_sync :: "filesystem \<Rightarrow> string list \<Rightarrow> string \<Rightarrow> WordNode_omp HashMap" where
  "process_files_sync fs filenames delimiters =
     foldl (merge_file_omp fs delimiters) (create_hashmap HASH_TABLE_SIZE) filenames"

text \<open>
  \<open>process_files_parallel\<close>. The schedule of a run is what OpenMP decides: \<open>owner ! i\<close> is
  the thread that runs iteration \<open>i\<close> of the \<open>omp for\<close> loop (a thread runs its iterations in
  increasing order), and \<open>order\<close> lists the threads in the order in which they merge their
  local table into the global one after the loop. Every \<open>merge_hashmaps\<close> call is one
  critical section, so the merges into the global table do not interleave.
\<close>

definition local_map_omp :: "filesystem \<Rightarrow> string list \<Rightarrow> string \<Rightarrow> nat list \<Rightarrow> nat \<Rightarrow> WordNode_omp HashMap" where
  "local_map_omp fs filenames delimiters owner thread_id =
     foldl (merge_file_omp fs delimiters) (create_hashmap HASH_TABLE_SIZE)
       (map (\<lambda>i. filenames ! i) (filter (\<lambda>i. owner ! i = thread_id) [0..<length filenames]))"

definition process_files_parallel ::
  "filesystem \<Rightarrow> string list \<Rightarrow> string \<Rightarrow> nat list \<Rightarrow> nat list \<Rightarrow> WordNode_omp HashMap" where
  "process_files_parallel fs filenames delimiters owner order =
     foldl (\<lambda>global_map thread_id.
              merge_hashmaps_omp global_map (local_map_omp fs filenames delimiters owner thread_id))
       (create_hashmap HASH_TABLE_SIZE) order"

text \<open>A schedule for \<open>num_threads\<close> threads: every iteration has an owner among them, and
  each thread merges once.\<close>

definition schedule_ok :: "nat \<Rightarrow> nat \<Rightarrow> nat list \<Rightarrow> nat list \<Rightarrow> bool" where
  "schedule_ok num_files num_threads owner order \<longleftrightarrow>
     length owner = num_files \<and> list_all (\<lambda>t. t < num_threads) owner \<and>
     length order = num_threads \<and> distinct order \<and> list_all (\<lambda>t. t < num_threads) order"

text \<open>
  \<open>main\<close> of the MPI file for \<open>nprocs\<close> processes (\<open>size\<close> in the source, at least 1 in
  MPI). The delimiter set is fixed. Rank \<open>r\<close> takes the files \<open>r\<close>, \<open>r + nprocs\<close>, ...; every
  rank serializes its table; rank 0 merges its own table and then the regions of the
  ranks 1 to \<open>nprocs - 1\<close>, and prints the first 10 rows.
\<close>

definition delims_mpi :: string where
  "delims_mpi = '' ,.!?;:'' @ [LF]"

function rank_indices :: "nat \<Rightarrow> nat \<Rightarrow> nat \<Rightarrow> nat list" where
  "rank_indices i n step = (if i < n \<and> 0 < step then i # rank_indices (i + step) n step else [])"
  by pat_completeness auto
termination
  by (relation "measure (\<lambda>(i, n, step). n - i)") auto

declare rank_indices.simps [simp del]

definition merge_file_mpi :: "filesystem \<Rightarrow> string list \<Rightarrow> WordNode HashMap \<Rightarrow> nat \<Rightarrow> WordNode HashMap" where
  "merge_file_mpi fs filenames local_map i =
     (case process_file fs (filenames ! i) delims_mpi of
        None \<Rightarrow> local_map
      | Some tmp \<Rightarrow> merge_hashmaps local_map (Some tmp))"

definition local_map_mpi :: "filesystem \<Rightarrow> string list \<Rightarrow> nat \<Rightarrow> nat \<Rightarrow> WordNode HashMap" where
  "local_map_mpi fs filenames rank nprocs =
     foldl (merge_file_mpi fs filenames) (create_hashmap HASH_TABLE_SIZE)
       (rank_indices rank (length filenames) nprocs)"

fun gather :: "(abort + 'a) list \<Rightarrow> abort + 'a list" where
  "gather [] = Inr []"
| "gather (Inl e # rest) = Inl e"
| "gather (Inr x # rest) = (case gather rest of Inl e \<Rightarrow> Inl e | Inr xs \<Rightarrow> Inr (x # xs))"

definition reconstruct :: "WordNode HashMap \<Rightarrow> string \<times> int \<Rightarrow> WordNode HashMap" where
  "reconstruct global_map region =
     (case region of (buffer, len) \<Rightarrow>
        if len > 0 then deserialize_hashmap global_map buffer len else global_map)"

definition main_mpi :: "filesystem \<Rightarrow> string list \<Rightarrow> nat \<Rightarrow> abort + WordNode list" where
  "main_mpi fs filenames nprocs =
     (if filenames = [] \<or> nprocs = 0 then Inl Usage
      else
        let local_maps = map (\<lambda>rank. local_map_mpi fs filenames rank nprocs) [0..<nprocs] in
        case gather (map serialize_hashmap local_maps) of
          Inl e \<Rightarrow> Inl e
        | Inr regions \<Rightarrow>
            if sum_list (map snd regions) > MAX_BUFFER_SIZE then Inl GatheredSizeExceedsMax
            else
              let global_map = merge_hashmaps (create_hashmap HASH_TABLE_SIZE) (Some (hd local_maps))
              in Inr (print_results (foldl reconstruct global_map (tl regions)) 10))"

section \<open>Reference notions of the specification\<close>

text \<open>The case-folded word: the identity of a word.\<close>

definition key :: "string \<Rightarrow> string" where
  "key w = map tolower (c_str w)"

text \<open>A delimiter byte: one of the supplied set, a newline or a carriage return.\<close>

definition delim_byte :: "string \<Rightarrow> char \<Rightarrow> bool" where
  "delim_byte delims c = (is_delimiter c delims \<or> c = LF \<or> c = CR)"

definition spec_tokens :: "string \<Rightarrow> string \<Rightarrow> string list" where
  "spec_tokens delims bytes = map (take (MAX_WORD_LEN - 1)) (runs (delim_byte delims) bytes)"

text \<open>The entry of a table for a case-folded word: the first node, in traversal order,
  whose folded word is \<open>k\<close> (the only one in a table that satisfies \<open>table_ok\<close>).\<close>

definition lookup :: "'a WordNode_scheme HashMap \<Rightarrow> string \<Rightarrow> 'a WordNode_scheme option" where
  "lookup m k = find (\<lambda>n. key (word n) = k) (nodes m)"

text \<open>
  The invariant of a frequency table. Its last two parts are the invariant the
  specification states (distinct case-folded words; \<open>items\<close> counts the nodes). The other
  parts say how the table is laid out: \<open>size\<close> positive buckets, each node in the bucket of
  its hash, each word a C string of fewer than \<open>MAX_WORD_LEN\<close> bytes, each count at least 1.
\<close>

definition table_ok :: "'a WordNode_scheme HashMap \<Rightarrow> bool" where
  "table_ok m \<longleftrightarrow>
     0 < size_hm m \<and> length (buckets m) = size_hm m \<and>
     (\<forall>i < size_hm m. \<forall>n \<in> set (buckets m ! i).
        hash (word n) (size_hm m) = i \<and> NUL \<notin> set (word n) \<and>
        length (word n) < MAX_WORD_LEN \<and> 1 \<le> count n) \<and>
     distinct (map (\<lambda>n. key (word n)) (nodes m)) \<and>
     items m = int (length (nodes m))"

text \<open>The two \<open>insert_word\<close> functions differ in the node they create and in nothing
  else; \<open>insert_with\<close> is their common text, used to prove facts about both at once.\<close>

definition insert_with ::
  "(string \<Rightarrow> nat \<Rightarrow> 'a WordNode_scheme) \<Rightarrow> 'a WordNode_scheme HashMap \<Rightarrow> string \<Rightarrow> 'a WordNode_scheme HashMap" where
  "insert_with mk m w =
     (let h = hash w (size_hm m) in
      case chain_incr (buckets m ! h) w of
        Some chain \<Rightarrow> m\<lparr>buckets := (buckets m)[h := chain]\<rparr>
      | None \<Rightarrow> m\<lparr>buckets := (buckets m)[h := mk w h # (buckets m ! h)], items := items m + 1\<rparr>)"

text \<open>The spelling of the first word of a sequence whose case-folded form is \<open>k\<close>.\<close>

definition first_spelling :: "string list \<Rightarrow> string \<Rightarrow> string" where
  "first_spelling ws k = c_str (hd (filter (\<lambda>w. key w = k) ws))"

text \<open>The number of occurrences a table records for a case-folded word: the sum of
  the counts of the nodes whose folded word is \<open>k\<close>.\<close>

definition counts :: "'a WordNode_scheme HashMap \<Rightarrow> string \<Rightarrow> int" where
  "counts m k = sum_list (map (\<lambda>n. if key (word n) = k then count n else 0) (nodes m))"

text \<open>The layout of a table, without the distinctness of its words.\<close>

definition table_wf :: "'a WordNode_scheme HashMap \<Rightarrow> bool" where
  "table_wf m \<longleftrightarrow>
     0 < size_hm m \<and> length (buckets m) = size_hm m \<and>
     list_all (\<lambda>n. NUL \<notin> set (word n) \<and> length (word n) < MAX_WORD_LEN) (nodes m)"

text \<open>A record of the wire encoding is well formed when it has a colon and a positive
  count after it.\<close>

definition well_formed :: "string \<Rightarrow> bool" where
  "well_formed line \<longleftrightarrow> COLON \<in> set line \<and> 0 < record_count line"

text \<open>The case-folded form of a word as \<open>insert_word\<close> of the MPI file stores it.\<close>

definition stored_key :: "string \<Rightarrow> string" where
  "stored_key w = key (take (MAX_WORD_LEN - 1) (c_str w))"

text \<open>The words a table stands for: the word of each node as many times as its count.\<close>

definition occurrences :: "'a WordNode_scheme HashMap \<Rightarrow> string list" where
  "occurrences m = concat (map (\<lambda>n. replicate (nat (count n)) (word n)) (nodes m))"

text \<open>A table whose words can be sent: none contains the colon or the newline of the
  wire encoding (the delimiter set of the MPI program contains both).\<close>

definition wire_safe :: "'a WordNode_scheme HashMap \<Rightarrow> bool" where
  "wire_safe m \<longleftrightarrow> list_all (\<lambda>n. COLON \<notin> set (word n) \<and> LF \<notin> set (word n)) (nodes m)"

text \<open>
  The order of the ranked list in the specification: count descending, then the
  case-folded word ascending, in the lexicographic order of the bytes. As a sort key it
  is the pair of the negated count and the folded word, ordered lexicographically.
  \<open>rank_key_omp\<close> is the key that \<open>compare_words\<close> of the OpenMP file implements: the
  stored bytes in place of the folded word.
\<close>

definition rank_key :: "'a WordNode_scheme \<Rightarrow> int \<times> string" where
  "rank_key n = (- count n, key (word n))"

definition rank_key_omp :: "'a WordNode_scheme \<Rightarrow> int \<times> string" where
  "rank_key_omp n = (- count n, word n)"

text \<open>A row as the specification identifies it: the case-folded word and the count.\<close>

definition folded_row :: "'a WordNode_scheme \<Rightarrow> string \<times> int" where
  "folded_row n = (key (word n), count n)"

text \<open>What a file contributes to the count of a case-folded word in the MPI program:
  nothing when it cannot be read.\<close>

definition file_counts :: "filesystem \<Rightarrow> string \<Rightarrow> string \<Rightarrow> int" where
  "file_counts fs filename k =
     (case process_file fs filename delims_mpi of None \<Rightarrow> 0 | Some t \<Rightarrow> counts t k)"

text \<open>
  The tables of the OpenMP program are merged by the stored bytes (\<open>strcmp\<close>). Their
  invariant has the layout of \<open>table_ok\<close> and asks that no two nodes hold the same bytes;
  \<open>exact_counts\<close> is the number of occurrences a table records for a spelling, and
  \<open>file_counts_omp\<close> what a file contributes to it, nothing when it cannot be opened.
\<close>

definition table_exact :: "'a WordNode_scheme HashMap \<Rightarrow> bool" where
  "table_exact m \<longleftrightarrow>
     0 < size_hm m \<and> length (buckets m) = size_hm m \<and>
     list_all (\<lambda>i. list_all (\<lambda>n. hash (word n) (size_hm m) = i \<and> NUL \<notin> set (word n) \<and> 1 \<le> count n)
                            (buckets m ! i)) [0..<size_hm m] \<and>
     distinct (map word (nodes m)) \<and>
     items m = int (length (nodes m))"

definition exact_counts :: "'a WordNode_scheme HashMap \<Rightarrow> string \<Rightarrow> int" where
  "exact_counts m w = sum_list (map (\<lambda>n. if word n = w then count n else 0) (nodes m))"

definition file_counts_omp :: "filesystem \<Rightarrow> string \<Rightarrow> string \<Rightarrow> string \<Rightarrow> int" where
  "file_counts_omp fs filename delimiters w =
     (case process_file_sync fs filename delimiters of None \<Rightarrow> 0 | Some t \<Rightarrow> exact_counts t w)"

section \<open>Facts about C strings\<close>

lemma tolower_NUL [simp]: "tolower NUL = NUL"
  by (simp add: tolower_def NUL_def)

lemma of_char_tolower:
  "of_char (tolower c) = (if (65::nat) \<le> of_char c \<and> of_char c \<le> (90::nat) then of_char c + 32 else (of_char c :: nat))"
  by (cases c) (auto simp: tolower_def)

lemma tolower_eq_NUL [simp]: "tolower c = NUL \<longleftrightarrow> c = NUL"
proof
  assume "tolower c = NUL"
  then have "(of_char (tolower c) :: nat) = 0"
    by (simp add: NUL_def)
  then have "(of_char c :: nat) = 0"
    by (simp add: of_char_tolower split: if_splits)
  then have "(of_char c :: nat) = of_char (CHR 0x00)"
    by simp
  then show "c = NUL"
    unfolding NUL_def by (simp only: of_char_eq_iff)
qed simp

lemma c_str_idem [simp]: "c_str (c_str s) = c_str s"
  by (simp add: c_str_def)

lemma c_str_id: "NUL \<notin> set s \<Longrightarrow> c_str s = s"
  by (auto simp: c_str_def)

lemma NUL_notin_c_str [simp]: "NUL \<notin> set (c_str s)"
  by (auto simp: c_str_def dest: set_takeWhileD)

section \<open>The tokenizer\<close>

lemma runs_empty: "dropWhile P bs = [] \<Longrightarrow> runs P bs = []"
  by (subst runs.simps) simp

lemma runs_unfold:
  "dropWhile P bs \<noteq> [] \<Longrightarrow>
   runs P bs = takeWhile (\<lambda>c. \<not> P c) (dropWhile P bs) # runs P (dropWhile (\<lambda>c. \<not> P c) (dropWhile P bs))"
  by (subst runs.simps) (simp add: Let_def)

lemma runs_Nil [simp]: "runs P [] = []"
  by (simp add: runs_empty)

lemma runs_skip: "P c \<Longrightarrow> runs P (c # cs) = runs P cs"
proof (cases "dropWhile P cs = []")
  case True
  then show "P c \<Longrightarrow> ?thesis" by (simp add: runs_empty)
next
  case False
  assume "P c"
  then have "dropWhile P (c # cs) = dropWhile P cs" by simp
  then show ?thesis
    using False by (simp only: runs_unfold [of P "c # cs"] runs_unfold [of P cs] not_False_eq_True)
qed

lemma runs_run_delim:
  assumes "\<forall>c\<in>set r. \<not> P c" "P c"
  shows "runs P (r @ c # cs) = (if r = [] then runs P cs else r # runs P cs)"
proof (cases "r = []")
  case True
  then show ?thesis using assms by (simp add: runs_skip)
next
  case False
  then have "\<not> P (hd r)" using assms by simp
  then have d: "dropWhile P (r @ c # cs) = r @ c # cs"
    using False by (cases r) simp_all
  have t: "takeWhile (\<lambda>c. \<not> P c) (r @ c # cs) = r"
    using assms by simp
  have e: "dropWhile (\<lambda>c. \<not> P c) (r @ c # cs) = c # cs"
    using assms by simp
  have "runs P (r @ c # cs) = r # runs P (c # cs)"
    using runs_unfold [of P "r @ c # cs"] by (simp only: d t e) simp
  then show ?thesis
    using False assms by (simp add: runs_skip)
qed

lemma runs_single:
  assumes "\<forall>c\<in>set r. \<not> P c"
  shows "runs P r = (if r = [] then [] else [r])"
proof (cases "r = []")
  case True
  then show ?thesis by simp
next
  case False
  then have "\<not> P (hd r)" using assms by simp
  then have d: "dropWhile P r = r"
    using False by (cases r) simp_all
  have t: "takeWhile (\<lambda>c. \<not> P c) r = r"
    using assms by simp
  have e: "dropWhile (\<lambda>c. \<not> P c) r = []"
    using assms by simp
  have "runs P r = [r]"
    using runs_unfold [of P r] False by (simp only: d t e) simp
  then show ?thesis
    using False by simp
qed

lemma runs_subset: "r \<in> set (runs P bs) \<Longrightarrow> set r \<subseteq> set bs"
proof (induction P bs rule: runs.induct)
  case (1 P bs)
  show ?case
  proof (cases "dropWhile P bs = []")
    case True
    then show ?thesis using "1.prems" by (simp add: runs_empty)
  next
    case False
    from "1.prems" runs_unfold [OF False]
    consider "r = takeWhile (\<lambda>c. \<not> P c) (dropWhile P bs)"
      | "r \<in> set (runs P (dropWhile (\<lambda>c. \<not> P c) (dropWhile P bs)))"
      by auto
    then show ?thesis
    proof cases
      case 1
      then show ?thesis
        by (meson set_dropWhileD set_takeWhileD subsetI)
    next
      case 2
      then have "set r \<subseteq> set (dropWhile (\<lambda>c. \<not> P c) (dropWhile P bs))"
        using "1.IH" [OF refl False] by simp
      then show ?thesis
        by (meson set_dropWhileD subsetD subsetI)
    qed
  qed
qed

lemma take_snoc_buffer:
  "(if length (take n r) < n then take n r @ [c] else take n r) = take n (r @ [c])"
  by (auto simp: min_def)

lemma scan_tokens_gen:
  assumes "\<forall>c\<in>set r. \<not> delim_byte delims c"
  shows "scan_finish (\<lambda>out w. out @ [c_str w])
           (foldl (scan_byte (\<lambda>out w. out @ [c_str w]) delims) (take (MAX_WORD_LEN - 1) r, out) bs)
         = out @ map (\<lambda>r. c_str (take (MAX_WORD_LEN - 1) r)) (runs (delim_byte delims) (r @ bs))"
  using assms
proof (induction bs arbitrary: r out)
  case Nil
  then show ?case
    by (auto simp: scan_finish_def runs_single MAX_WORD_LEN_def)
next
  case (Cons c cs)
  show ?case
  proof (cases "delim_byte delims c")
    case True
    have step: "scan_byte (\<lambda>out w. out @ [c_str w]) delims (take (MAX_WORD_LEN - 1) r, out) c
        = (if r = [] then (take (MAX_WORD_LEN - 1) [], out)
           else (take (MAX_WORD_LEN - 1) [], out @ [c_str (take (MAX_WORD_LEN - 1) r)]))"
      using True by (auto simp: scan_byte_def delim_byte_def MAX_WORD_LEN_def)
    show ?thesis
      using Cons.prems True
      by (simp only: foldl_Cons step runs_run_delim [OF Cons.prems True] if_distrib [of "\<lambda>st. foldl _ st cs"]
            if_distrib [of "scan_finish _"] Cons.IH [of "[]", simplified] )
         (auto simp: Cons.IH [of "[]", simplified])
  next
    case False
    have step: "scan_byte (\<lambda>out w. out @ [c_str w]) delims (take (MAX_WORD_LEN - 1) r, out) c
        = (take (MAX_WORD_LEN - 1) (r @ [c]), out)"
      using False take_snoc_buffer [of "MAX_WORD_LEN - 1" r c]
      by (simp add: scan_byte_def delim_byte_def)
    have "\<forall>c\<in>set (r @ [c]). \<not> delim_byte delims c"
      using Cons.prems False by simp
    from Cons.IH [OF this, of out] show ?thesis
      by (simp only: foldl_Cons step append_assoc append_Cons append_Nil)
  qed
qed

lemma tokenize_runs:
  "tokenize delims bytes = map (\<lambda>r. c_str (take (MAX_WORD_LEN - 1) r)) (runs (delim_byte delims) bytes)"
  using scan_tokens_gen [of "[]" delims "[]" bytes] by (simp add: tokenize_def)

text \<open>
  Claim C6 (tokenizer), as amended: for every byte stream without a NUL byte and every
  supplied delimiter set, the tokens handed to \<open>insert_word\<close> are exactly the maximal
  non-empty runs of bytes that are neither in the supplied set nor newline nor carriage
  return, in stream order, each cut to its first \<open>MAX_WORD_LEN - 1\<close> = 99 bytes.
  (\<open>tokenize_runs\<close> above says what happens in general: a token also ends at the first
  NUL byte of its run, because it is handed on as a C string.)
\<close>

theorem tokenizer_correct_NUL_free:
  assumes "NUL \<notin> set bytes"
  shows "tokenize delims bytes = spec_tokens delims bytes"
proof -
  have "c_str (take (MAX_WORD_LEN - 1) r) = take (MAX_WORD_LEN - 1) r"
    if "r \<in> set (runs (delim_byte delims) bytes)" for r
  proof -
    have "set (take (MAX_WORD_LEN - 1) r) \<subseteq> set bytes"
      using runs_subset [OF that] set_take_subset by fastforce
    then show ?thesis using assms by (intro c_str_id) auto
  qed
  then show ?thesis
    by (simp add: tokenize_runs spec_tokens_def)
qed

lemma is_delimiter_space [simp]: "is_delimiter c '' '' \<longleftrightarrow> c = CHR '' ''"
  by (auto simp: NUL_def)

text \<open>
  Claim C6 as stated, for every byte stream, fails on a stream with a NUL byte: with the
  delimiter set \<open>" "\<close> the stream \<open>a NUL b\<close> is one run of three bytes, and the token the
  code inserts is \<open>a\<close>.
\<close>

theorem tokenizer_NUL_counterexample:
  "tokenize '' '' [CHR ''a'', NUL, CHR ''b''] = [''a''] \<and>
   spec_tokens '' '' [CHR ''a'', NUL, CHR ''b''] = [[CHR ''a'', NUL, CHR ''b'']] \<and>
   tokenize '' '' [CHR ''a'', NUL, CHR ''b''] \<noteq> spec_tokens '' '' [CHR ''a'', NUL, CHR ''b'']"
proof -
  have nd: "\<forall>c\<in>set [CHR ''a'', NUL, CHR ''b'']. \<not> delim_byte '' '' c"
    by (simp add: delim_byte_def NUL_def LF_def CR_def)
  have r: "runs (delim_byte '' '') [CHR ''a'', NUL, CHR ''b''] = [[CHR ''a'', NUL, CHR ''b'']]"
    using runs_single [OF nd] by simp
  show ?thesis
    unfolding tokenize_runs spec_tokens_def r
    by (simp add: c_str_def MAX_WORD_LEN_def NUL_def)
qed

theorem tokenizer_witness:
  "NUL \<notin> set ''Apple apple'' \<and> tokenize '' '' ''Apple apple'' = spec_tokens '' '' ''Apple apple''"
proof -
  have h: "NUL \<notin> set ''Apple apple''"
    by (simp add: NUL_def)
  show ?thesis
    using h tokenizer_correct_NUL_free [OF h, of "'' ''"] by simp
qed

section \<open>Case-folded words, hashing and the chain scan\<close>

lemma peek_simps [simp]: "peek [] = NUL" "peek (c # cs) = c"
  by (simp_all add: peek_def)

lemma NUL_eq_tolower [simp]: "NUL = tolower c \<longleftrightarrow> c = NUL"
  using tolower_eq_NUL [of c] by (simp only: eq_commute)

lemma key_c_str [simp]: "key (c_str w) = key w"
  by (simp add: key_def)

lemma key_Nil [simp]: "key [] = []"
  by (simp add: key_def c_str_def)

lemma key_Cons: "key (c # cs) = (if c = NUL then [] else tolower c # key cs)"
  by (simp add: key_def c_str_def)

lemma key_NUL_free: "NUL \<notin> set s \<Longrightarrow> key s = map tolower s"
  by (simp add: key_def c_str_id)

lemma length_key [simp]: "length (key w) = length (c_str w)"
  by (simp add: key_def)

lemma strncasecmp_key:
  "NUL \<notin> set s \<Longrightarrow> length s < n \<Longrightarrow> strncasecmp s w n = 0 \<longleftrightarrow> map tolower s = key w"
proof (induction n arbitrary: s w)
  case 0
  then show ?case by simp
next
  case (Suc n)
  show ?case
  proof (cases s)
    case Nil
    then show ?thesis
      by (cases w) (auto simp: key_Cons Let_def)
  next
    case (Cons x s')
    then have x: "x \<noteq> NUL" and s': "NUL \<notin> set s'" "length s' < n"
      using Suc.prems by auto
    show ?thesis
    proof (cases w)
      case Nil
      then show ?thesis using Cons x by (simp add: Let_def)
    next
      case (Cons c w')
      then show ?thesis
        using \<open>s = x # s'\<close> x Suc.IH [OF s', of w'] by (auto simp: key_Cons Let_def)
    qed
  qed
qed

lemma fnv1a_key:
  "fnv1a h w = foldl (\<lambda>h c. (h XOR of_nat (of_char c)) * 16777619) h (key w)"
  by (induction w arbitrary: h) (simp_all add: key_Cons)

lemma hash_key: "key w = key w' \<Longrightarrow> hash w sz = hash w' sz"
  by (simp add: hash_def fnv1a_key)

lemma hash_less: "0 < sz \<Longrightarrow> hash w sz < sz"
  by (simp add: hash_def)

lemma chain_incr_None:
  "chain_incr ch w = None \<longleftrightarrow> (\<forall>n\<in>set ch. strncasecmp (word n) w MAX_WORD_LEN \<noteq> 0)"
  by (induction ch) auto

lemma chain_incr_Some:
  "chain_incr ch w = Some ch' \<Longrightarrow>
   \<exists>j<length ch. strncasecmp (word (ch ! j)) w MAX_WORD_LEN = 0 \<and>
                 ch' = ch[j := (ch ! j)\<lparr>count := count (ch ! j) + 1\<rparr>]"
proof (induction ch arbitrary: ch')
  case Nil
  then show ?case by simp
next
  case (Cons n ns)
  show ?case
  proof (cases "strncasecmp (word n) w MAX_WORD_LEN = 0")
    case True
    then have "ch' = (n # ns)[0 := ((n # ns) ! 0)\<lparr>count := count ((n # ns) ! 0) + 1\<rparr>]"
      using Cons.prems by simp
    then show ?thesis using True by (intro exI [of _ 0]) simp
  next
    case False
    then obtain ns' where ns': "chain_incr ns w = Some ns'" and ch': "ch' = n # ns'"
      using Cons.prems by auto
    from Cons.IH [OF ns'] obtain j where j: "j < length ns"
      "strncasecmp (word (ns ! j)) w MAX_WORD_LEN = 0"
      "ns' = ns[j := (ns ! j)\<lparr>count := count (ns ! j) + 1\<rparr>]"
      by blast
    then show ?thesis using ch' by (intro exI [of _ "Suc j"]) simp
  qed
qed

lemma nodes_concat: "length (buckets m) = size_hm m \<Longrightarrow> nodes m = concat (buckets m)"
  unfolding nodes_def using map_nth [of "buckets m"] by simp

lemma concat_update:
  "h < length bs \<Longrightarrow> concat (bs[h := x]) = concat (take h bs) @ x @ concat (drop (Suc h) bs)"
  by (simp add: upd_conv_take_nth_drop)

lemma concat_split:
  "h < length bs \<Longrightarrow> concat bs = concat (take h bs) @ bs ! h @ concat (drop (Suc h) bs)"
  by (metis concat_append concat.simps(2) id_take_nth_drop)

lemma concat_update_update:
  assumes "h < length bs" "j < length (bs ! h)"
  shows "concat (bs[h := (bs ! h)[j := x]]) = (concat bs)[length (concat (take h bs)) + j := x]"
    and "concat bs ! (length (concat (take h bs)) + j) = bs ! h ! j"
    and "length (concat (take h bs)) + j < length (concat bs)"
proof -
  define A B C where "A = concat (take h bs)" and "B = bs ! h" and "C = concat (drop (Suc h) bs)"
  have c: "concat bs = A @ B @ C"
    unfolding A_def B_def C_def by (rule concat_split [OF assms(1)])
  have u: "concat (bs[h := B[j := x]]) = A @ B[j := x] @ C"
    unfolding A_def C_def by (rule concat_update [OF assms(1)])
  have j: "j < length B"
    using assms(2) by (simp add: B_def)
  show "concat (bs[h := (bs ! h)[j := x]]) = (concat bs)[length (concat (take h bs)) + j := x]"
    using j unfolding u [unfolded B_def] c A_def [symmetric]
    by (simp add: list_update_append B_def)
  show "concat bs ! (length (concat (take h bs)) + j) = bs ! h ! j"
    using j unfolding c A_def [symmetric] by (simp add: nth_append B_def)
  show "length (concat (take h bs)) + j < length (concat bs)"
    using j unfolding c A_def [symmetric] by simp
qed

lemma in_nodes_iff:
  "length (buckets m) = size_hm m \<Longrightarrow> n \<in> set (nodes m) \<longleftrightarrow> (\<exists>i < size_hm m. n \<in> set (buckets m ! i))"
  by (simp add: nodes_concat) (metis in_set_conv_nth)

lemma table_ok_nodeD:
  assumes "table_ok m" "n \<in> set (nodes m)"
  shows "NUL \<notin> set (word n)" "length (word n) < MAX_WORD_LEN" "1 \<le> count n"
    "n \<in> set (buckets m ! hash (word n) (size_hm m))" "key (word n) = map tolower (word n)"
proof -
  from assms obtain i where i: "i < size_hm m" "n \<in> set (buckets m ! i)"
    by (auto simp: table_ok_def in_nodes_iff)
  with assms(1) have *: "hash (word n) (size_hm m) = i \<and> NUL \<notin> set (word n) \<and>
        length (word n) < MAX_WORD_LEN \<and> 1 \<le> count n"
    unfolding table_ok_def by blast
  then show "NUL \<notin> set (word n)" "length (word n) < MAX_WORD_LEN" "1 \<le> count n"
    "n \<in> set (buckets m ! hash (word n) (size_hm m))"
    using i by simp_all
  then show "key (word n) = map tolower (word n)"
    by (simp add: key_NUL_free)
qed

lemma table_ok_key_inj:
  assumes "table_ok m" "n \<in> set (nodes m)" "n' \<in> set (nodes m)" "key (word n) = key (word n')"
  shows "n = n'"
proof -
  have "inj_on (\<lambda>n. key (word n)) (set (nodes m))"
    using assms(1) by (simp add: table_ok_def distinct_map)
  then show ?thesis using assms by (auto dest: inj_onD)
qed

section \<open>Insertion and the table invariant\<close>

lemma table_ok_sizeD:
  "table_ok m \<Longrightarrow> 0 < size_hm m" "table_ok m \<Longrightarrow> length (buckets m) = size_hm m"
  "table_ok m \<Longrightarrow> nodes m = concat (buckets m)" "table_ok m \<Longrightarrow> items m = int (length (nodes m))"
  "table_ok m \<Longrightarrow> distinct (map (\<lambda>n. key (word n)) (nodes m))"
  unfolding table_ok_def by (elim conjE, simp add: nodes_concat)+

lemma strncasecmp_node:
  assumes "table_ok m" "n \<in> set (nodes m)"
  shows "strncasecmp (word n) w MAX_WORD_LEN = 0 \<longleftrightarrow> key (word n) = key w"
  using strncasecmp_key [of "word n" MAX_WORD_LEN w] table_ok_nodeD [OF assms] by simp

lemma bucket_subset_nodes:
  assumes "table_ok m" "i < size_hm m" "n \<in> set (buckets m ! i)"
  shows "n \<in> set (nodes m)"
  using assms in_nodes_iff [of m n] by (auto simp: table_ok_sizeD)

lemma insert_with_found:
  assumes ok: "table_ok m" and n: "n \<in> set (nodes m)" and k: "key (word n) = key w"
  shows "\<exists>j<length (buckets m ! hash w (size_hm m)).
           buckets m ! hash w (size_hm m) ! j = n \<and>
           insert_with mk m w =
             m\<lparr>buckets := (buckets m)[hash w (size_hm m) :=
                   (buckets m ! hash w (size_hm m))[j := n\<lparr>count := count n + 1\<rparr>]]\<rparr>"
proof -
  define h where "h = hash w (size_hm m)"
  have h_lt: "h < size_hm m"
    unfolding h_def using ok by (simp add: hash_less table_ok_sizeD)
  have "hash (word n) (size_hm m) = h"
    unfolding h_def by (rule hash_key [OF k])
  then have nin: "n \<in> set (buckets m ! h)"
    using table_ok_nodeD(4) [OF ok n] by simp
  have "strncasecmp (word n) w MAX_WORD_LEN = 0"
    using strncasecmp_node [OF ok n] k by simp
  then have "chain_incr (buckets m ! h) w \<noteq> None"
    using nin by (auto simp: chain_incr_None)
  then obtain ch' where ch': "chain_incr (buckets m ! h) w = Some ch'"
    by auto
  from chain_incr_Some [OF this] obtain j where j: "j < length (buckets m ! h)"
    "strncasecmp (word (buckets m ! h ! j)) w MAX_WORD_LEN = 0"
    "ch' = (buckets m ! h)[j := (buckets m ! h ! j)\<lparr>count := count (buckets m ! h ! j) + 1\<rparr>]"
    by blast
  have mem: "buckets m ! h ! j \<in> set (nodes m)"
    using bucket_subset_nodes [OF ok h_lt] j(1) by simp
  then have "key (word (buckets m ! h ! j)) = key w"
    using strncasecmp_node [OF ok mem] j(2) by simp
  then have eq: "buckets m ! h ! j = n"
    using table_ok_key_inj [OF ok mem n] k by simp
  have "insert_with mk m w = m\<lparr>buckets := (buckets m)[h := (buckets m ! h)[j := n\<lparr>count := count n + 1\<rparr>]]\<rparr>"
    using ch' j(3) eq by (simp add: insert_with_def h_def [symmetric])
  then show ?thesis
    unfolding h_def [symmetric] using j(1) eq by blast
qed

lemma insert_with_fresh:
  assumes ok: "table_ok m" and fresh: "\<forall>n\<in>set (nodes m). key (word n) \<noteq> key w"
  shows "insert_with mk m w =
           m\<lparr>buckets := (buckets m)[hash w (size_hm m) :=
                 mk w (hash w (size_hm m)) # (buckets m ! hash w (size_hm m))],
             items := items m + 1\<rparr>"
proof -
  define h where "h = hash w (size_hm m)"
  have h_lt: "h < size_hm m"
    unfolding h_def using ok by (simp add: hash_less table_ok_sizeD)
  have "strncasecmp (word n) w MAX_WORD_LEN \<noteq> 0" if "n \<in> set (buckets m ! h)" for n
    using strncasecmp_node [OF ok bucket_subset_nodes [OF ok h_lt that]] fresh
      bucket_subset_nodes [OF ok h_lt that] by simp
  then have "chain_incr (buckets m ! h) w = None"
    by (simp add: chain_incr_None)
  then show ?thesis
    by (simp add: insert_with_def h_def [symmetric])
qed

lemma concat_replicate_Nil [simp]: "concat (replicate n []) = []"
  by (induction n) simp_all

lemma table_ok_create: "0 < sz \<Longrightarrow> table_ok (create_hashmap sz)"
  by (simp add: table_ok_def create_hashmap_def nodes_concat)

lemma nodes_create [simp]: "nodes (create_hashmap sz) = []"
  by (simp add: create_hashmap_def nodes_concat)

lemma table_ok_bucketD:
  assumes "table_ok m" "i < size_hm m" "x \<in> set (buckets m ! i)"
  shows "hash (word x) (size_hm m) = i \<and> NUL \<notin> set (word x) \<and>
         length (word x) < MAX_WORD_LEN \<and> 1 \<le> count x"
  using assms unfolding table_ok_def by blast

lemma table_okI:
  assumes "0 < size_hm m" "length (buckets m) = size_hm m"
    "\<And>i x. i < size_hm m \<Longrightarrow> x \<in> set (buckets m ! i) \<Longrightarrow>
        hash (word x) (size_hm m) = i \<and> NUL \<notin> set (word x) \<and>
        length (word x) < MAX_WORD_LEN \<and> 1 \<le> count x"
    "distinct (map (\<lambda>n. key (word n)) (nodes m))"
    "items m = int (length (nodes m))"
  shows "table_ok m"
  using assms unfolding table_ok_def by blast

lemma insert_with_found_nodes:
  assumes ok: "table_ok m" and n: "n \<in> set (nodes m)" and k: "key (word n) = key w"
  shows "table_ok (insert_with mk m w)"
    and "set (nodes (insert_with mk m w)) = insert (n\<lparr>count := count n + 1\<rparr>) (set (nodes m) - {n})"
proof -
  define h where "h = hash w (size_hm m)"
  define bs where "bs = buckets m"
  define n' where "n' = n\<lparr>count := count n + 1\<rparr>"
  define m' where "m' = insert_with mk m w"
  from insert_with_found [OF ok n k, of mk]
  obtain j where j: "j < length (bs ! h)" "bs ! h ! j = n"
    and eq: "m' = m\<lparr>buckets := bs[h := (bs ! h)[j := n']]\<rparr>"
    unfolding h_def bs_def n'_def m'_def by blast
  have h_lt: "h < length bs"
    unfolding h_def bs_def using ok by (simp add: hash_less table_ok_sizeD)
  have len: "length bs = size_hm m"
    unfolding bs_def using ok by (simp add: table_ok_sizeD)
  define J where "J = length (concat (take h bs)) + j"
  note cu = concat_update_update(1) [OF h_lt j(1), of n', folded J_def]
    concat_update_update(2,3) [OF h_lt j(1), folded J_def]
  have nm: "nodes m = concat bs"
    unfolding bs_def using ok by (simp add: table_ok_sizeD)
  have nm': "nodes m' = (nodes m)[J := n']"
    using cu(1) nm len by (simp add: eq nodes_concat)
  have Jn: "nodes m ! J = n" "J < length (nodes m)"
    using cu(2,3) j(2) nm by simp_all
  have dk: "distinct (map (\<lambda>n. key (word n)) (nodes m))"
    by (rule table_ok_sizeD(5) [OF ok])
  then have d: "distinct (nodes m)"
    by (simp add: distinct_map)
  show "set (nodes m') = insert n' (set (nodes m) - {n})"
    using set_update_distinct [OF d Jn(2), of n'] Jn(1) nm' by simp
  have keys: "map (\<lambda>n. key (word n)) (nodes m') = map (\<lambda>n. key (word n)) (nodes m)"
    using Jn by (simp add: nm' map_update n'_def list_update_same_conv)
  show "table_ok m'"
  proof (rule table_okI)
    show "0 < size_hm m'" "length (buckets m') = size_hm m'"
      using ok len by (simp_all add: eq table_ok_sizeD)
    show "distinct (map (\<lambda>n. key (word n)) (nodes m'))"
      using dk keys by simp
    have "items m' = items m"
      by (simp add: eq)
    moreover have "length (nodes m') = length (nodes m)"
      by (simp add: nm')
    ultimately
    show "items m' = int (length (nodes m'))"
      using table_ok_sizeD(4) [OF ok] by simp
  next
    fix i x
    assume i: "i < size_hm m'" and x: "x \<in> set (buckets m' ! i)"
    have i': "i < size_hm m"
      using i by (simp add: eq)
    have "x = n' \<and> i = h \<or> x \<in> set (buckets m ! i)"
      using x i' h_lt len set_update_subset_insert [of "bs ! h" j n']
      by (cases "i = h") (auto simp: eq bs_def)
    then show "hash (word x) (size_hm m') = i \<and> NUL \<notin> set (word x) \<and>
        length (word x) < MAX_WORD_LEN \<and> 1 \<le> count x"
    proof
      assume "x = n' \<and> i = h"
      then show ?thesis
        using table_ok_nodeD [OF ok n] hash_key [OF k, of "size_hm m"]
        by (simp add: n'_def eq h_def)
    next
      assume "x \<in> set (buckets m ! i)"
      from table_ok_bucketD [OF ok i' this] show ?thesis
        by (simp add: eq)
    qed
  qed
qed

lemma distinct_map_insert_middle:
  "distinct (map f (A @ B)) \<Longrightarrow> f x \<notin> f ` set (A @ B) \<Longrightarrow> distinct (map f (A @ x # B))"
  by auto

lemma insert_with_fresh_nodes:
  assumes ok: "table_ok m" and fresh: "\<forall>n\<in>set (nodes m). key (word n) \<noteq> key w"
    and len: "length (c_str w) < MAX_WORD_LEN"
    and mk: "word (mk w (hash w (size_hm m))) = c_str w" "count (mk w (hash w (size_hm m))) = 1"
  shows "table_ok (insert_with mk m w)"
    and "set (nodes (insert_with mk m w)) = insert (mk w (hash w (size_hm m))) (set (nodes m))"
proof -
  define h where "h = hash w (size_hm m)"
  define bs where "bs = buckets m"
  define new where "new = mk w h"
  define m' where "m' = insert_with mk m w"
  have eq: "m' = m\<lparr>buckets := bs[h := new # bs ! h], items := items m + 1\<rparr>"
    unfolding m'_def bs_def new_def h_def by (rule insert_with_fresh [OF ok fresh])
  have h_lt: "h < length bs"
    unfolding h_def bs_def using ok by (simp add: hash_less table_ok_sizeD)
  have lenb: "length bs = size_hm m"
    unfolding bs_def using ok by (simp add: table_ok_sizeD)
  have nm: "nodes m = concat (take h bs) @ bs ! h @ concat (drop (Suc h) bs)"
    using concat_split [OF h_lt] ok by (simp add: bs_def table_ok_sizeD)
  have nm': "nodes m' = concat (take h bs) @ (new # bs ! h) @ concat (drop (Suc h) bs)"
    using concat_update [OF h_lt, of "new # bs ! h"] lenb by (simp add: eq nodes_concat)
  show "set (nodes m') = insert new (set (nodes m))"
    by (simp add: nm nm')
  have knew: "key (word new) = key w"
    using mk by (simp add: new_def h_def)
  have dk: "distinct (map (\<lambda>n. key (word n)) (nodes m))"
    by (rule table_ok_sizeD(5) [OF ok])
  show "table_ok m'"
  proof (rule table_okI)
    show "0 < size_hm m'" "length (buckets m') = size_hm m'"
      using ok lenb by (simp_all add: eq table_ok_sizeD)
    have "key (word new) \<notin> (\<lambda>n. key (word n)) ` set (concat (take h bs) @ bs ! h @ concat (drop (Suc h) bs))"
      using fresh knew unfolding nm by force
    then show "distinct (map (\<lambda>n. key (word n)) (nodes m'))"
      using dk unfolding nm nm' append_Cons by (rule distinct_map_insert_middle [rotated])
    have "items m' = items m + 1"
      by (simp add: eq)
    moreover have "length (nodes m') = Suc (length (nodes m))"
      by (simp add: nm nm')
    ultimately show "items m' = int (length (nodes m'))"
      using table_ok_sizeD(4) [OF ok] by simp
  next
    fix i x
    assume i: "i < size_hm m'" and x: "x \<in> set (buckets m' ! i)"
    have i': "i < size_hm m"
      using i by (simp add: eq)
    have "x = new \<and> i = h \<or> x \<in> set (buckets m ! i)"
      using x i' h_lt lenb by (cases "i = h") (auto simp: eq bs_def)
    then show "hash (word x) (size_hm m') = i \<and> NUL \<notin> set (word x) \<and>
        length (word x) < MAX_WORD_LEN \<and> 1 \<le> count x"
    proof
      assume "x = new \<and> i = h"
      then show ?thesis
        using mk len hash_key [of "c_str w" w "size_hm m"]
        by (simp add: new_def eq h_def)
    next
      assume "x \<in> set (buckets m ! i)"
      from table_ok_bucketD [OF ok i' this] show ?thesis
        by (simp add: eq)
    qed
  qed
qed

lemma table_ok_insert_with:
  assumes "table_ok m" "length (c_str w) < MAX_WORD_LEN"
    "word (mk w (hash w (size_hm m))) = c_str w" "count (mk w (hash w (size_hm m))) = 1"
  shows "table_ok (insert_with mk m w)"
proof (cases "\<exists>n\<in>set (nodes m). key (word n) = key w")
  case True
  then show ?thesis
    using insert_with_found_nodes(1) [OF assms(1)] by blast
next
  case False
  then show ?thesis
    using insert_with_fresh_nodes(1) [where mk = mk and m = m and w = w] assms by blast
qed

lemma lookup_Some_iff:
  assumes "table_ok m"
  shows "lookup m k = Some n \<longleftrightarrow> n \<in> set (nodes m) \<and> key (word n) = k"
proof
  assume "lookup m k = Some n"
  then show "n \<in> set (nodes m) \<and> key (word n) = k"
    unfolding lookup_def by (auto simp: find_Some_iff)
next
  assume r: "n \<in> set (nodes m) \<and> key (word n) = k"
  then have "lookup m k \<noteq> None"
    unfolding lookup_def by (auto simp: find_None_iff)
  then obtain n' where n': "lookup m k = Some n'"
    by auto
  then have "n' \<in> set (nodes m) \<and> key (word n') = k"
    unfolding lookup_def by (auto simp: find_Some_iff)
  then have "n' = n"
    using table_ok_key_inj [OF assms, of n' n] r by simp
  then show "lookup m k = Some n"
    using n' by simp
qed

lemma lookup_None_iff: "lookup m k = None \<longleftrightarrow> (\<forall>n\<in>set (nodes m). key (word n) \<noteq> k)"
  unfolding lookup_def by (auto simp: find_None_iff)

lemma lookup_eqI:
  assumes "table_ok m" "\<And>n. n \<in> set (nodes m) \<and> key (word n) = k \<longleftrightarrow> r = Some n"
  shows "lookup m k = r"
proof (cases r)
  case None
  then show ?thesis using assms(2) by (simp add: lookup_None_iff)
next
  case (Some n)
  then show ?thesis using assms(2) [of n] by (simp add: lookup_Some_iff [OF assms(1)])
qed

lemma lookup_insert_with:
  assumes ok: "table_ok m" and len: "length (c_str w) < MAX_WORD_LEN"
    and mk: "word (mk w (hash w (size_hm m))) = c_str w" "count (mk w (hash w (size_hm m))) = 1"
  shows "lookup (insert_with mk m w) k =
           (if k = key w
            then Some (case lookup m k of None \<Rightarrow> mk w (hash w (size_hm m))
                                        | Some n \<Rightarrow> n\<lparr>count := count n + 1\<rparr>)
            else lookup m k)"
proof (cases "lookup m (key w)")
  case None
  then have fresh: "\<forall>n\<in>set (nodes m). key (word n) \<noteq> key w"
    by (simp add: lookup_None_iff)
  define new where "new = mk w (hash w (size_hm m))"
  note f = insert_with_fresh_nodes [where mk = mk and m = m and w = w, OF ok fresh len mk, folded new_def]
  have knew: "key (word new) = key w"
    using mk by (simp add: new_def)
  show ?thesis
  proof (cases "k = key w")
    case True
    have "lookup (insert_with mk m w) k = Some new"
    proof (rule lookup_eqI [OF f(1)])
      fix n
      show "n \<in> set (nodes (insert_with mk m w)) \<and> key (word n) = k \<longleftrightarrow> Some new = Some n"
        unfolding f(2) using fresh knew True by auto
    qed
    then show ?thesis
      using True None by (simp add: new_def)
  next
    case False
    have "lookup (insert_with mk m w) k = lookup m k"
    proof (rule lookup_eqI [OF f(1)])
      fix n
      show "n \<in> set (nodes (insert_with mk m w)) \<and> key (word n) = k \<longleftrightarrow> lookup m k = Some n"
        unfolding f(2) lookup_Some_iff [OF ok] using knew False by auto
    qed
    then show ?thesis
      using False by simp
  qed
next
  case (Some n0)
  then have n0: "n0 \<in> set (nodes m)" "key (word n0) = key w"
    by (simp_all add: lookup_Some_iff [OF ok])
  define n' where "n' = n0\<lparr>count := count n0 + 1\<rparr>"
  note f = insert_with_found_nodes [OF ok n0, of mk, folded n'_def]
  have kn': "key (word n') = key w"
    using n0 by (simp add: n'_def)
  have only: "n = n0" if "n \<in> set (nodes m)" "key (word n) = key w" for n
    using table_ok_key_inj [OF ok that(1) n0(1)] that(2) n0(2) by simp
  show ?thesis
  proof (cases "k = key w")
    case True
    have "lookup (insert_with mk m w) k = Some n'"
    proof (rule lookup_eqI [OF f(1)])
      fix n
      show "n \<in> set (nodes (insert_with mk m w)) \<and> key (word n) = k \<longleftrightarrow> Some n' = Some n"
        unfolding f(2) using only kn' True by auto
    qed
    then show ?thesis
      using True Some by (simp add: n'_def)
  next
    case False
    have "lookup (insert_with mk m w) k = lookup m k"
    proof (rule lookup_eqI [OF f(1)])
      fix n
      show "n \<in> set (nodes (insert_with mk m w)) \<and> key (word n) = k \<longleftrightarrow> lookup m k = Some n"
        unfolding f(2) lookup_Some_iff [OF ok] using kn' n0(2) False by auto
    qed
    then show ?thesis
      using False by simp
  qed
qed

lemma insert_word_with:
  "insert_word = insert_with (\<lambda>w h. \<lparr>word = take (MAX_WORD_LEN - 1) (c_str w), count = 1\<rparr>)"
  by (intro ext) (simp only: insert_word_def insert_with_def)

lemma insert_word_omp_with:
  "insert_word_omp = insert_with (\<lambda>w h. \<lparr>word = c_str w, count = 1, hash_omp = h\<rparr>)"
  by (intro ext) (simp only: insert_word_omp_def insert_with_def)

lemma take_short_word: "length (c_str w) < MAX_WORD_LEN \<Longrightarrow> take (MAX_WORD_LEN - 1) (c_str w) = c_str w"
  by (simp add: MAX_WORD_LEN_def)

lemma first_spelling_snoc_same:
  "key w = k \<Longrightarrow> first_spelling (ws @ [w]) k = (if k \<in> key ` set ws then first_spelling ws k else c_str w)"
proof (cases "k \<in> key ` set ws")
  case True
  then have "filter (\<lambda>w. key w = k) ws \<noteq> []"
    by (auto simp: filter_empty_conv)
  then show "key w = k \<Longrightarrow> ?thesis"
    using True by (simp add: first_spelling_def)
next
  case False
  then have "filter (\<lambda>w. key w = k) ws = []"
    by (auto simp: filter_empty_conv)
  then show "key w = k \<Longrightarrow> ?thesis"
    using False by (simp add: first_spelling_def)
qed

lemma first_spelling_snoc_other:
  "key w \<noteq> k \<Longrightarrow> first_spelling (ws @ [w]) k = first_spelling ws k"
  by (simp add: first_spelling_def)

lemma lookup_create [simp]: "lookup (create_hashmap sz) k = None"
  by (simp add: lookup_def)

lemma fold_insert_with_lookup:
  assumes sz: "0 < sz"
    and mk: "\<And>w h. length (c_str w) < MAX_WORD_LEN \<Longrightarrow> word (mk w h) = c_str w \<and> count (mk w h) = 1"
  shows "\<forall>w\<in>set ws. length (c_str w) < MAX_WORD_LEN \<Longrightarrow>
         table_ok (foldl (insert_with mk) (create_hashmap sz) ws) \<and>
         (\<forall>k. map_option (\<lambda>n. (word n, count n)) (lookup (foldl (insert_with mk) (create_hashmap sz) ws) k) =
               (if k \<in> key ` set ws
                then Some (first_spelling ws k, int (length (filter (\<lambda>w. key w = k) ws)))
                else None))"
proof (induction ws rule: rev_induct)
  case Nil
  then show ?case
    using sz by (simp add: table_ok_create)
next
  case (snoc w ws)
  define T where "T = foldl (insert_with mk) (create_hashmap sz) ws"
  have len: "length (c_str w) < MAX_WORD_LEN"
    using snoc.prems by simp
  have ok: "table_ok T"
    and L: "\<And>k. map_option (\<lambda>n. (word n, count n)) (lookup T k) =
               (if k \<in> key ` set ws
                then Some (first_spelling ws k, int (length (filter (\<lambda>w. key w = k) ws)))
                else None)"
    using snoc.IH snoc.prems unfolding T_def by simp_all
  note mkw = mk [OF len, of "hash w (size_hm T)"]
  have ok': "table_ok (insert_with mk T w)"
    using table_ok_insert_with [where mk = mk, OF ok len] mkw by simp
  have look: "lookup (insert_with mk T w) k =
           (if k = key w
            then Some (case lookup T k of None \<Rightarrow> mk w (hash w (size_hm T))
                                        | Some n \<Rightarrow> n\<lparr>count := count n + 1\<rparr>)
            else lookup T k)" for k
    using lookup_insert_with [where mk = mk, OF ok len] mkw by simp
  have "map_option (\<lambda>n. (word n, count n)) (lookup (insert_with mk T w) k) =
               (if k \<in> key ` set (ws @ [w])
                then Some (first_spelling (ws @ [w]) k, int (length (filter (\<lambda>w. key w = k) (ws @ [w]))))
                else None)" for k
  proof (cases "k = key w")
    case False
    then show ?thesis
      using L [of k] by (auto simp: look first_spelling_snoc_other)
  next
    case True
    show ?thesis
    proof (cases "k \<in> key ` set ws")
      case False
      then have "lookup T k = None"
        using L [of k] by simp
      moreover have "filter (\<lambda>w. key w = k) ws = []"
        using False by (auto simp: filter_empty_conv)
      ultimately show ?thesis
        using True False mkw by (simp add: look first_spelling_snoc_same)
    next
      case in_ws: True
      then obtain n where n: "lookup T k = Some n" "word n = first_spelling ws k"
        "count n = int (length (filter (\<lambda>w. key w = k) ws))"
        using L [of k] by auto
      then show ?thesis
        using True in_ws by (simp add: look first_spelling_snoc_same)
    qed
  qed
  then show ?case
    using ok' unfolding T_def by simp
qed


lemma key_Apple: "key ''Apple'' = key ''apple''" "key ''apple'' \<noteq> key ''pear''"
  by (simp_all add: key_def c_str_def NUL_def tolower_def)

lemma short_words: "length (c_str ''apple'') < MAX_WORD_LEN" "length (c_str ''Apple'') < MAX_WORD_LEN"
  "c_str ''apple'' = ''apple''" "c_str ''Apple'' = ''Apple''"
  by (simp_all add: c_str_def NUL_def MAX_WORD_LEN_def)

lemma HASH_TABLE_SIZE_pos: "0 < HASH_TABLE_SIZE"
  by (simp add: HASH_TABLE_SIZE_def)

lemma single_word_table:
  assumes "0 < sz" "length (c_str w) < MAX_WORD_LEN"
    "\<And>h. word (mk w h) = c_str w \<and> count (mk w h) = 1"
  shows "table_ok (insert_with mk (create_hashmap sz) w)"
    and "set (nodes (insert_with mk (create_hashmap sz) w)) = {mk w (hash w sz)}"
    and "items (insert_with mk (create_hashmap sz) w) = 1"
proof -
  have ok: "table_ok (create_hashmap sz :: 'a WordNode_scheme HashMap)"
    by (rule table_ok_create [OF assms(1)])
  have fresh: "\<forall>n\<in>set (nodes (create_hashmap sz :: 'a WordNode_scheme HashMap)). key (word n) \<noteq> key w"
    by simp
  have sz: "size_hm (create_hashmap sz :: 'a WordNode_scheme HashMap) = sz"
    by (simp add: create_hashmap_def)
  note f = insert_with_fresh_nodes [where mk = mk and w = w, OF ok fresh assms(2)]
  show "table_ok (insert_with mk (create_hashmap sz) w)"
    using f(1) assms(3) by simp
  show "set (nodes (insert_with mk (create_hashmap sz) w)) = {mk w (hash w sz)}"
    using f(2) assms(3) by (simp add: sz)
  show "items (insert_with mk (create_hashmap sz) w) = 1"
    using insert_with_fresh [where mk = mk and w = w, OF ok fresh] by (simp add: create_hashmap_def)
qed


text \<open>
  Claim C10 (stored spelling): after inserting the words \<open>ws\<close> in order into an empty
  table, the entry for a case-folded word \<open>k\<close> holds the bytes of the first word of \<open>ws\<close>
  that folds to \<open>k\<close>, unchanged, and as count the number of words of \<open>ws\<close> that fold to
  \<open>k\<close>; no entry exists for a \<open>k\<close> that no word folds to. Later occurrences in another
  case raise the count and leave the spelling, so the spelling depends on the order of
  insertion (the two sequences of the witness differ in nothing else). Words are shorter
  than \<open>MAX_WORD_LEN\<close>, as the tokenizer and the table deliver them.
\<close>

theorem stored_spelling_first_occurrence:
  assumes "0 < sz" and "\<forall>w\<in>set ws. length (c_str w) < MAX_WORD_LEN"
  shows "map_option (\<lambda>n. (word n, count n)) (lookup (foldl insert_word (create_hashmap sz) ws) k) =
           (if k \<in> key ` set ws
            then Some (first_spelling ws k, int (length (filter (\<lambda>w. key w = k) ws)))
            else None) \<and>
         map_option (\<lambda>n. (word n, count n)) (lookup (foldl insert_word_omp (create_hashmap sz) ws) k) =
           (if k \<in> key ` set ws
            then Some (first_spelling ws k, int (length (filter (\<lambda>w. key w = k) ws)))
            else None)"
proof -
  have a: "word (\<lparr>word = take (MAX_WORD_LEN - 1) (c_str w), count = 1\<rparr> :: WordNode) = c_str w \<and>
           count (\<lparr>word = take (MAX_WORD_LEN - 1) (c_str w), count = 1\<rparr> :: WordNode) = 1"
    if "length (c_str w) < MAX_WORD_LEN" for w
    using take_short_word [OF that] by simp
  have b: "word \<lparr>word = c_str w, count = 1, hash_omp = h\<rparr> = c_str w \<and>
           count \<lparr>word = c_str w, count = 1, hash_omp = h\<rparr> = 1" for w h
    by simp
  show ?thesis
    unfolding insert_word_with insert_word_omp_with
    using fold_insert_with_lookup [where mk = "\<lambda>w h. \<lparr>word = take (MAX_WORD_LEN - 1) (c_str w), count = 1\<rparr>",
        OF assms(1) a assms(2)]
      fold_insert_with_lookup [where mk = "\<lambda>w h. \<lparr>word = c_str w, count = 1, hash_omp = h\<rparr>",
        OF assms(1) b assms(2)]
    by blast
qed

theorem stored_spelling_witness:
  "0 < HASH_TABLE_SIZE \<and>
   length (c_str ''Apple'') < MAX_WORD_LEN \<and> length (c_str ''apple'') < MAX_WORD_LEN \<and>
   map_option (\<lambda>n. (word n, count n))
     (lookup (foldl insert_word (create_hashmap HASH_TABLE_SIZE) [''Apple'', ''apple'']) ''apple'')
     = Some (''Apple'', 2) \<and>
   map_option (\<lambda>n. (word n, count n))
     (lookup (foldl insert_word (create_hashmap HASH_TABLE_SIZE) [''apple'', ''Apple'']) ''apple'')
     = Some (''apple'', 2) \<and>
   map_option (\<lambda>n. (word n, count n))
     (lookup (foldl insert_word_omp (create_hashmap HASH_TABLE_SIZE) [''Apple'', ''apple'']) ''apple'')
     = Some (''Apple'', 2)"
proof -
  have l1: "\<forall>w\<in>set [''Apple'', ''apple'']. length (c_str w) < MAX_WORD_LEN"
    and l2: "\<forall>w\<in>set [''apple'', ''Apple'']. length (c_str w) < MAX_WORD_LEN"
    by (simp_all add: short_words MAX_WORD_LEN_def)
  have k: "key ''Apple'' = ''apple''" "key ''apple'' = ''apple''"
    by (simp_all add: key_def c_str_def NUL_def tolower_def)
  have r1: "(if ''apple'' \<in> key ` set [''Apple'', ''apple'']
             then Some (first_spelling [''Apple'', ''apple''] ''apple'',
                        int (length (filter (\<lambda>w. key w = ''apple'') [''Apple'', ''apple''])))
             else None) = Some (''Apple'', 2)"
    by (simp add: k first_spelling_def short_words)
  have r2: "(if ''apple'' \<in> key ` set [''apple'', ''Apple'']
             then Some (first_spelling [''apple'', ''Apple''] ''apple'',
                        int (length (filter (\<lambda>w. key w = ''apple'') [''apple'', ''Apple''])))
             else None) = Some (''apple'', 2)"
    by (simp add: k first_spelling_def short_words)
  show ?thesis
    using stored_spelling_first_occurrence [OF HASH_TABLE_SIZE_pos l1, of "''apple''"]
      stored_spelling_first_occurrence [OF HASH_TABLE_SIZE_pos l2, of "''apple''"]
      short_words(1,2) HASH_TABLE_SIZE_pos
    unfolding r1 r2 by blast
qed

section \<open>Counts under insertion and reconstruction (MPI file)\<close>

lemma table_wf_D:
  assumes "table_wf m"
  shows "0 < size_hm m" "length (buckets m) = size_hm m" "nodes m = concat (buckets m)"
    "\<And>n. n \<in> set (nodes m) \<Longrightarrow> NUL \<notin> set (word n) \<and> length (word n) < MAX_WORD_LEN"
  using assms unfolding table_wf_def by (auto simp: nodes_concat list_all_iff)

lemma table_wfI:
  assumes "0 < size_hm m" "length (buckets m) = size_hm m"
    "\<And>n. n \<in> set (nodes m) \<Longrightarrow> NUL \<notin> set (word n) \<and> length (word n) < MAX_WORD_LEN"
  shows "table_wf m"
  using assms unfolding table_wf_def by (auto simp: list_all_iff)

lemma table_ok_wf:
  assumes "table_ok m"
  shows "table_wf m"
proof (rule table_wfI)
  show "0 < size_hm m" "length (buckets m) = size_hm m"
    by (rule table_ok_sizeD [OF assms])+
  fix n
  assume "n \<in> set (nodes m)"
  then show "NUL \<notin> set (word n) \<and> length (word n) < MAX_WORD_LEN"
    using table_ok_nodeD(1,2) [OF assms] by blast
qed

lemma table_wf_create: "0 < sz \<Longrightarrow> table_wf (create_hashmap sz)"
  unfolding table_wf_def by (simp add: nodes_create) (simp add: create_hashmap_def)

lemma counts_create [simp]: "counts (create_hashmap sz) k = 0"
  by (simp add: counts_def)

lemma sum_list_map_update:
  fixes f :: "'a \<Rightarrow> int"
  shows "J < length xs \<Longrightarrow> sum_list (map f (xs[J := x])) = sum_list (map f xs) - f (xs ! J) + f x"
  by (induction xs arbitrary: J) (auto split: nat.splits)

lemma stored_key_match:
  assumes "NUL \<notin> set s" "length s < MAX_WORD_LEN" "strncasecmp s w MAX_WORD_LEN = 0"
  shows "stored_key w = key s" "key w = key s" "length (c_str w) < MAX_WORD_LEN"
proof -
  have e: "map tolower s = key w"
    using strncasecmp_key [OF assms(1,2)] assms(3) by simp
  then show k: "key w = key s"
    using assms(1) by (simp add: key_NUL_free)
  have "length (c_str w) = length s"
    using e length_key [of w] by (metis length_map)
  then show l: "length (c_str w) < MAX_WORD_LEN"
    using assms(2) by simp
  show "stored_key w = key s"
    unfolding stored_key_def take_short_word [OF l] using k by simp
qed

lemma counts_insert_word:
  assumes wf: "table_wf m"
  shows "table_wf (insert_word m w)"
    and "counts (insert_word m w) k = counts m k + (if stored_key w = k then 1 else 0)"
proof -
  define h where "h = hash w (size_hm m)"
  define bs where "bs = buckets m"
  define m' where "m' = insert_word m w"
  define f where "f = (\<lambda>n :: WordNode. if key (word n) = k then count n else 0)"
  have h_lt: "h < length bs"
    unfolding h_def bs_def using table_wf_D(1,2) [OF wf] by (simp add: hash_less)
  have lenb: "length bs = size_hm m"
    unfolding bs_def by (rule table_wf_D(2) [OF wf])
  have nm: "nodes m = concat bs"
    unfolding bs_def by (rule table_wf_D(3) [OF wf])
  have "table_wf m' \<and> sum_list (map f (nodes m')) = sum_list (map f (nodes m)) + (if stored_key w = k then 1 else 0)"
  proof (cases "chain_incr (bs ! h) w")
    case None
    define new :: WordNode where "new = \<lparr>word = take (MAX_WORD_LEN - 1) (c_str w), count = 1\<rparr>"
    have eq: "m' = m\<lparr>buckets := bs[h := new # bs ! h], items := items m + 1\<rparr>"
      using None unfolding m'_def insert_word_def h_def [symmetric] bs_def [symmetric] new_def
      by simp
    have nm2: "nodes m = concat (take h bs) @ bs ! h @ concat (drop (Suc h) bs)"
      using concat_split [OF h_lt] nm by simp
    have nm': "nodes m' = concat (take h bs) @ (new # bs ! h) @ concat (drop (Suc h) bs)"
      using concat_update [OF h_lt, of "new # bs ! h"] lenb by (simp add: eq nodes_concat)
    have fnew: "f new = (if stored_key w = k then 1 else 0)"
      by (simp add: f_def new_def stored_key_def)
    have wnew: "NUL \<notin> set (word new) \<and> length (word new) < MAX_WORD_LEN"
      using set_take_subset [of "MAX_WORD_LEN - 1" "c_str w"] NUL_notin_c_str [of w]
      by (auto simp: new_def MAX_WORD_LEN_def)
    have "table_wf m'"
    proof (rule table_wfI)
      show "0 < size_hm m'" "length (buckets m') = size_hm m'"
        using table_wf_D(1) [OF wf] lenb by (simp_all add: eq)
      fix n
      assume "n \<in> set (nodes m')"
      then have "n = new \<or> n \<in> set (nodes m)"
        unfolding nm' nm2 by auto
      then show "NUL \<notin> set (word n) \<and> length (word n) < MAX_WORD_LEN"
        using wnew table_wf_D(4) [OF wf] by blast
    qed
    moreover have "sum_list (map f (nodes m')) = sum_list (map f (nodes m)) + f new"
      unfolding nm' nm2 by simp
    ultimately show ?thesis
      using fnew by simp
  next
    case (Some ch')
    from chain_incr_Some [OF Some] obtain j where j: "j < length (bs ! h)"
      "strncasecmp (word (bs ! h ! j)) w MAX_WORD_LEN = 0"
      "ch' = (bs ! h)[j := (bs ! h ! j)\<lparr>count := count (bs ! h ! j) + 1\<rparr>]"
      by blast
    define n where "n = bs ! h ! j"
    define n' where "n' = n\<lparr>count := count n + 1\<rparr>"
    have eq: "m' = m\<lparr>buckets := bs[h := (bs ! h)[j := n']]\<rparr>"
      using Some j(3) unfolding m'_def insert_word_def h_def [symmetric] bs_def [symmetric] n'_def n_def
      by simp
    define J where "J = length (concat (take h bs)) + j"
    note cu = concat_update_update(1) [OF h_lt j(1), of n', folded J_def]
      concat_update_update(2,3) [OF h_lt j(1), folded J_def]
    have nm': "nodes m' = (nodes m)[J := n']"
      using cu(1) nm lenb by (simp add: eq nodes_concat)
    have Jn: "nodes m ! J = n" "J < length (nodes m)"
      using cu(2,3) nm by (simp_all add: n_def)
    then have nin: "n \<in> set (nodes m)"
      by (metis nth_mem)
    note nw = table_wf_D(4) [OF wf nin]
    have sk: "stored_key w = key (word n)"
      using stored_key_match(1) [of "word n" w] nw j(2) by (simp add: n_def)
    have "table_wf m'"
    proof (rule table_wfI)
      show "0 < size_hm m'" "length (buckets m') = size_hm m'"
        using table_wf_D(1) [OF wf] lenb by (simp_all add: eq)
      fix x
      assume "x \<in> set (nodes m')"
      then have "x = n' \<or> x \<in> set (nodes m)"
        unfolding nm' using set_update_subset_insert [of "nodes m" J n'] by auto
      then show "NUL \<notin> set (word x) \<and> length (word x) < MAX_WORD_LEN"
        using nw table_wf_D(4) [OF wf] by (auto simp: n'_def)
    qed
    moreover have "sum_list (map f (nodes m')) = sum_list (map f (nodes m)) - f n + f n'"
      unfolding nm' using sum_list_map_update [OF Jn(2), of f n'] Jn(1) by simp
    moreover have "f n' - f n = (if stored_key w = k then 1 else 0)"
      by (simp add: f_def n'_def sk)
    ultimately show ?thesis
      by simp
  qed
  then show "table_wf (insert_word m w)"
    and "counts (insert_word m w) k = counts m k + (if stored_key w = k then 1 else 0)"
    unfolding counts_def m'_def f_def by simp_all
qed

lemma counts_insert_times:
  assumes "table_wf m"
  shows "table_wf (((\<lambda>d. insert_word d w) ^^ c) m) \<and>
         counts (((\<lambda>d. insert_word d w) ^^ c) m) k = counts m k + (if stored_key w = k then int c else 0)"
proof (induction c)
  case 0
  then show ?case using assms by simp
next
  case (Suc c)
  then show ?case
    using counts_insert_word(1) [of "((\<lambda>d. insert_word d w) ^^ c) m" w]
      counts_insert_word(2) [of "((\<lambda>d. insert_word d w) ^^ c) m" w k] by simp
qed

lemma deserialize_record_skip: "\<not> well_formed line \<Longrightarrow> deserialize_record m line = m"
  by (auto simp: well_formed_def deserialize_record_def)

lemma counts_deserialize_record:
  assumes "table_wf m"
  shows "table_wf (deserialize_record m line) \<and>
         counts (deserialize_record m line) k =
           counts m k + (if well_formed line \<and> stored_key (record_word line) = k then record_count line else 0)"
proof (cases "well_formed line")
  case False
  then show ?thesis using assms by (simp add: deserialize_record_skip)
next
  case True
  then have "deserialize_record m line = ((\<lambda>d. insert_word d (record_word line)) ^^ nat (record_count line)) m"
    and "0 < record_count line"
    by (simp_all add: well_formed_def deserialize_record_def)
  then show ?thesis
    using counts_insert_times [OF assms, where w = "record_word line" and c = "nat (record_count line)" and k = k] True
    by simp
qed

lemma counts_foldl_records:
  assumes "table_wf m"
  shows "table_wf (foldl deserialize_record m ls) \<and>
         counts (foldl deserialize_record m ls) k =
           counts m k + sum_list (map record_count
                            (filter (\<lambda>l. well_formed l \<and> stored_key (record_word l) = k) ls))"
  using assms
proof (induction ls arbitrary: m)
  case Nil
  then show ?case by simp
next
  case (Cons l ls)
  from counts_deserialize_record [OF Cons.prems, of l k] Cons.IH [of "deserialize_record m l"]
  show ?case by simp
qed

lemma foldl_records_filter:
  "foldl deserialize_record m ls = foldl deserialize_record m (filter well_formed ls)"
  by (induction ls arbitrary: m) (simp_all add: deserialize_record_skip)

lemma c_str_take_NUL: "peek buffer = NUL \<Longrightarrow> c_str (take n buffer) = []"
  by (cases buffer; cases n) (simp_all add: c_str_def)

lemma deserialize_hashmap_records:
  "deserialize_hashmap m buffer len = foldl deserialize_record m (records buffer len)"
  by (simp add: deserialize_hashmap_def records_def c_str_take_NUL)


lemma runs_Cons:
  "runs P (c # cs) =
     (if P c then runs P cs
      else takeWhile (\<lambda>c. \<not> P c) (c # cs) # runs P (dropWhile (\<lambda>c. \<not> P c) (c # cs)))"
proof (cases "P c")
  case True
  then show ?thesis by (simp add: runs_skip)
next
  case False
  then have "dropWhile P (c # cs) = c # cs"
    by simp
  then show ?thesis
    using False runs_unfold [of P "c # cs"] by simp
qed

lemma example_region:
  "records (''cat:2'' @ LF # ''bad'' @ LF # ''dog:0'' @ [LF]) 16 = [''cat:2'', ''bad'', ''dog:0'']"
  "well_formed ''cat:2''" "\<not> well_formed ''bad''" "\<not> well_formed ''dog:0''"
  "record_count ''cat:2'' = 2" "stored_key (record_word ''cat:2'') = ''cat''"
  by (simp_all add: records_def runs_Cons c_str_def LF_def NUL_def COLON_def well_formed_def
        record_count_def record_word_def atoi_def isspace_def isdigit_def peek_def
        stored_key_def key_def tolower_def MAX_WORD_LEN_def)


section \<open>The wire encoding: printing and parsing\<close>

lemma of_char_digit_char: "d < 10 \<Longrightarrow> (of_char (digit_char d) :: nat) = 48 + d"
  by (simp add: digit_char_def)

lemma digits_chars: "c \<in> set (digits n) \<Longrightarrow> (48::nat) \<le> of_char c \<and> of_char c \<le> (57::nat)"
proof (induction n rule: digits.induct)
  case (1 n)
  show ?case
  proof (cases "n < 10")
    case True
    then show ?thesis
      using "1.prems" by (subst (asm) digits.simps) (simp add: of_char_digit_char)
  next
    case False
    then have "c \<in> set (digits (n div 10)) \<or> c = digit_char (n mod 10)"
      using "1.prems" by (subst (asm) digits.simps) auto
    then show ?thesis
      using "1.IH" [OF False] by (auto simp: of_char_digit_char)
  qed
qed

lemma digits_not_Nil: "digits n \<noteq> []"
  by (subst digits.simps) simp

lemma digits_value: "foldl (\<lambda>a c. 10 * a + (int (of_char c) - 48)) 0 (digits n) = int n"
proof (induction n rule: digits.induct)
  case (1 n)
  show ?case
  proof (cases "n < 10")
    case True
    then show ?thesis
      by (subst digits.simps) (simp add: of_char_digit_char)
  next
    case False
    have "int n = 10 * int (n div 10) + int (n mod 10)"
      by presburger
    then show ?thesis
      using False "1.IH" [OF False] by (subst digits.simps) (simp add: of_char_digit_char)
  qed
qed

lemma digit_range_facts:
  assumes "(48::nat) \<le> of_char c \<and> of_char c \<le> (57::nat)"
  shows "isdigit c" "\<not> isspace c" "c \<noteq> NUL" "c \<noteq> LF" "c \<noteq> COLON" "c \<noteq> CHR ''-''" "c \<noteq> CHR ''+''"
  using assms by (auto simp: isdigit_def isspace_def NUL_def LF_def COLON_def)

lemma atoi_digits: "atoi (digits n) = int n"
proof -
  have all: "\<forall>c\<in>set (digits n). isdigit c \<and> \<not> isspace c \<and> c \<noteq> NUL"
    using digits_chars digit_range_facts by blast
  obtain c cs where d: "digits n = c # cs"
    using digits_not_Nil [of n] by (cases "digits n") auto
  have c: "\<not> isspace c" "c \<noteq> CHR ''-''" "c \<noteq> CHR ''+''"
    using digits_chars [of c n] digit_range_facts [of c] d by simp_all
  have 1: "c_str (digits n) = digits n"
    using all by (intro c_str_id) auto
  have 2: "dropWhile isspace (digits n) = digits n"
    using c d by simp
  have 3: "takeWhile isdigit (digits n) = digits n"
    using all by (simp add: takeWhile_eq_all_conv)
  have 4: "peek (digits n) = c"
    using d by (simp add: peek_def)
  show ?thesis
    using digits_value [of n] c by (simp add: atoi_def Let_def 1 2 3 4)
qed

lemma atoi_printf_d: "0 \<le> i \<Longrightarrow> atoi (printf_d i) = i"
  by (simp add: printf_d_def atoi_digits)

lemma printf_d_chars: "0 \<le> i \<Longrightarrow> c \<in> set (printf_d i) \<Longrightarrow> c \<noteq> NUL \<and> c \<noteq> LF"
  using digits_chars digit_range_facts by (fastforce simp: printf_d_def)

text \<open>A record without its line terminator.\<close>

lemma record_of_line:
  "record_of n = (c_str (word n) @ COLON # printf_d (count n)) @ [LF]"
  by (simp add: record_of_def)

lemma record_parse:
  assumes "COLON \<notin> set (word n)" "NUL \<notin> set (word n)" "0 \<le> count n"
  shows "record_word (c_str (word n) @ COLON # printf_d (count n)) = word n"
    and "record_count (c_str (word n) @ COLON # printf_d (count n)) = count n"
    and "COLON \<in> set (c_str (word n) @ COLON # printf_d (count n))"
proof -
  have w: "c_str (word n) = word n"
    using assms(2) by (rule c_str_id)
  have nc: "\<And>c. c \<in> set (word n) \<Longrightarrow> c \<noteq> COLON"
    using assms(1) by auto
  show "record_word (c_str (word n) @ COLON # printf_d (count n)) = word n"
    unfolding record_word_def w using takeWhile_append2 [of "word n" "\<lambda>c. c \<noteq> COLON", OF nc] by simp
  have "dropWhile (\<lambda>c. c \<noteq> COLON) (word n @ COLON # printf_d (count n)) = COLON # printf_d (count n)"
    using dropWhile_append2 [of "word n" "\<lambda>c. c \<noteq> COLON", OF nc] by simp
  then show "record_count (c_str (word n) @ COLON # printf_d (count n)) = count n"
    unfolding record_count_def w using atoi_printf_d [OF assms(3)] by simp
  show "COLON \<in> set (c_str (word n) @ COLON # printf_d (count n))"
    by simp
qed

lemma runs_terminated:
  assumes "P d" "\<And>x. x \<in> set xs \<Longrightarrow> g x \<noteq> [] \<and> (\<forall>c\<in>set (g x). \<not> P c)"
  shows "runs P (concat (map (\<lambda>x. g x @ [d]) xs)) = map g xs"
  using assms(2)
proof (induction xs)
  case Nil
  then show ?case by simp
next
  case (Cons x xs)
  have "runs P (g x @ d # concat (map (\<lambda>x. g x @ [d]) xs)) = g x # runs P (concat (map (\<lambda>x. g x @ [d]) xs))"
    using runs_run_delim [of "g x" P d] Cons.prems [of x] assms(1) by simp
  moreover have "runs P (concat (map (\<lambda>x. g x @ [d]) xs)) = map g xs"
    by (rule Cons.IH) (use Cons.prems in auto)
  ultimately show ?case
    by simp
qed

lemma serialize_nodes_Inr:
  "serialize_nodes L ns (buf, written) = Inr (buf', written') \<Longrightarrow>
   buf' = buf @ concat (map record_of ns) \<and> written' = written + int (length (concat (map record_of ns)))"
proof (induction ns arbitrary: buf written)
  case Nil
  then show ?case by simp
next
  case (Cons n ns)
  from Cons.prems have
    "serialize_nodes L ns (buf @ record_of n, written + int (length (record_of n))) = Inr (buf', written')"
    by (simp add: Let_def split: if_splits)
  from Cons.IH [OF this] show ?case
    by simp
qed

lemma serialize_nodes_fits:
  "written + int (length (concat (map record_of ns))) < L \<Longrightarrow>
   serialize_nodes L ns (buf, written) =
     Inr (buf @ concat (map record_of ns), written + int (length (concat (map record_of ns))))"
proof (induction ns arbitrary: buf written)
  case Nil
  then show ?case by simp
next
  case (Cons n ns)
  have "written + int (length (record_of n)) + int (length (concat (map record_of ns))) < L"
    using Cons.prems by simp
  from Cons.IH [OF this, of "buf @ record_of n"] Cons.prems show ?case
    by (simp add: Let_def)
qed

section \<open>Reconstruction of a serialized table\<close>

lemma funpow_foldl_replicate: "((\<lambda>d. f d w) ^^ c) d = foldl f d (replicate c w)"
proof (induction c)
  case 0
  then show ?case by simp
next
  case (Suc c)
  have "foldl f d (replicate (Suc c) w) = foldl f d (replicate c w @ [w])"
    by (simp only: replicate_append_same) simp
  then show ?case
    using Suc by simp
qed

lemma foldl_foldl_concat: "foldl (\<lambda>d n. foldl f d (g n)) a ns = foldl f a (concat (map g ns))"
  by (induction ns arbitrary: a) simp_all

lemma merge_hashmaps_occurrences:
  "merge_hashmaps dest (Some m) = foldl insert_word dest (occurrences m)"
  by (simp add: merge_hashmaps_def occurrences_def funpow_foldl_replicate foldl_foldl_concat)

lemma wire_safe_D: "wire_safe m \<Longrightarrow> n \<in> set (nodes m) \<Longrightarrow> COLON \<notin> set (word n) \<and> LF \<notin> set (word n)"
  by (auto simp: wire_safe_def list_all_iff)

lemma record_of_chars:
  assumes "NUL \<notin> set (word n)" "0 \<le> count n" "c \<in> set (record_of n)"
  shows "c \<noteq> NUL"
  using assms printf_d_chars [OF assms(2)]
  by (auto simp: record_of_def c_str_id NUL_def COLON_def LF_def)

lemma deserialize_record_line:
  assumes "COLON \<notin> set (word n)" "NUL \<notin> set (word n)" "1 \<le> count n"
  shows "deserialize_record d (c_str (word n) @ COLON # printf_d (count n)) =
           ((\<lambda>d. insert_word d (word n)) ^^ nat (count n)) d"
    and "well_formed (c_str (word n) @ COLON # printf_d (count n))"
  using record_parse [OF assms(1,2), of] assms(3)
  by (simp_all add: deserialize_record_def well_formed_def)

lemma deserialize_serialized:
  assumes ok: "table_ok m" and safe: "wire_safe m" and ser: "serialize_hashmap m = Inr (buffer, len)"
  shows "deserialize_hashmap g buffer len = merge_hashmaps g (Some m)"
    and "records buffer len = map (\<lambda>n. c_str (word n) @ COLON # printf_d (count n)) (nodes m)"
    and "list_all well_formed (records buffer len)"
    and "nodes m = [] \<Longrightarrow> buffer = [NUL] \<and> len = 1"
proof -
  define ns where "ns = nodes m"
  define line where "line = (\<lambda>n :: WordNode. c_str (word n) @ COLON # printf_d (count n))"
  define buf where "buf = concat (map record_of ns)"
  have nodeD: "NUL \<notin> set (word n) \<and> COLON \<notin> set (word n) \<and> LF \<notin> set (word n) \<and> 1 \<le> count n"
    if "n \<in> set ns" for n
    using that table_ok_nodeD(1,3) [OF ok, of n] wire_safe_D [OF safe, of n] by (simp add: ns_def)
  from ser obtain b w where sn: "serialize_nodes (items m * (int MAX_WORD_LEN + 12)) ns ([], 0) = Inr (b, w)"
    and res: "(buffer, len) = (if w = 0 then ([NUL], 1) else (b, w))"
    unfolding serialize_hashmap_def Let_def ns_def
    by (auto split: if_splits sum.splits)
  from serialize_nodes_Inr [OF sn] have b: "b = buf" and w: "w = int (length buf)"
    by (simp_all add: buf_def)
  have rec: "record_of n = line n @ [LF]" for n
    by (simp add: line_def record_of_def)
  have "record_of = (\<lambda>n. line n @ [LF])"
    by (intro ext) (rule rec)
  then have buf_lines: "buf = concat (map (\<lambda>n. line n @ [LF]) ns)"
    by (simp add: buf_def)
  have line_ok: "line n \<noteq> [] \<and> (\<forall>c\<in>set (line n). \<not> c = LF)" if "n \<in> set ns" for n
  proof -
    have "c \<noteq> LF" if "c \<in> set (printf_d (count n))" for c
      using printf_d_chars [of "count n" c] that nodeD [OF \<open>n \<in> set ns\<close>] by simp
    then show ?thesis
      using nodeD [OF that] by (auto simp: line_def c_str_id COLON_def LF_def)
  qed
  have runs_buf: "runs (\<lambda>c. c = LF) buf = map line ns"
    unfolding buf_lines by (rule runs_terminated) (use line_ok in auto)
  have nul_buf: "NUL \<notin> set buf"
    using record_of_chars nodeD unfolding buf_def by fastforce
  have fold_lines: "foldl deserialize_record g (map line ns) = merge_hashmaps g (Some m)"
  proof -
    have "foldl deserialize_record g (map line xs) =
            foldl (\<lambda>d node. ((\<lambda>d'. insert_word d' (word node)) ^^ nat (count node)) d) g xs"
      if "set xs \<subseteq> set ns" for xs
      using that
    proof (induction xs arbitrary: g)
      case Nil
      then show ?case by simp
    next
      case (Cons x xs)
      have "deserialize_record g (line x) = ((\<lambda>d'. insert_word d' (word x)) ^^ nat (count x)) g"
        unfolding line_def using deserialize_record_line(1) [of x g] nodeD [of x] Cons.prems by simp
      then show ?case
        using Cons by simp
    qed
    then show ?thesis
      by (simp add: merge_hashmaps_def ns_def)
  qed
  have wf_lines: "list_all well_formed (map line ns)"
    unfolding line_def using deserialize_record_line(2) nodeD by (auto simp: list_all_iff)
  show "nodes m = [] \<Longrightarrow> buffer = [NUL] \<and> len = 1"
    using res w by (simp add: buf_def ns_def)
  show "deserialize_hashmap g buffer len = merge_hashmaps g (Some m)"
    and "records buffer len = map (\<lambda>n. c_str (word n) @ COLON # printf_d (count n)) (nodes m)"
    and "list_all well_formed (records buffer len)"
  proof -
    have "deserialize_hashmap g buffer len = merge_hashmaps g (Some m) \<and>
          records buffer len = map line ns"
    proof (cases "ns = []")
      case True
      then have "buffer = [NUL]" "len = 1"
        using res w by (simp_all add: buf_def)
      then show ?thesis
        using True by (simp add: deserialize_hashmap_def records_def c_str_def peek_def
            merge_hashmaps_def ns_def [symmetric])
    next
      case False
      then obtain n ns' where "ns = n # ns'"
        by (cases ns) auto
      then have "buf \<noteq> []"
        by (simp add: buf_def record_of_def)
      then have bl: "buffer = buf" "len = int (length buf)"
        using res w b by simp_all
      have "c_str (take (nat len) buffer) = buf"
        using nul_buf by (simp add: bl c_str_id)
      then have r: "records buffer len = map line ns"
        by (simp add: records_def runs_buf)
      then show ?thesis
        using fold_lines by (simp add: deserialize_hashmap_records)
    qed
    then show "deserialize_hashmap g buffer len = merge_hashmaps g (Some m)"
      and "records buffer len = map (\<lambda>n. c_str (word n) @ COLON # printf_d (count n)) (nodes m)"
      and "list_all well_formed (records buffer len)"
      using wf_lines by (simp_all add: line_def ns_def)
  qed
qed

lemma filter_occurrences_none:
  "\<forall>x\<in>set ns. key (word x) \<noteq> k \<Longrightarrow>
   filter (\<lambda>w. key w = k) (concat (map (\<lambda>n. replicate (nat (count n)) (word n)) ns)) = []"
  by (induction ns) simp_all

lemma filter_occurrences:
  "distinct (map (\<lambda>n. key (word n)) ns) \<Longrightarrow> n \<in> set ns \<Longrightarrow>
   filter (\<lambda>w. key w = key (word n)) (concat (map (\<lambda>n. replicate (nat (count n)) (word n)) ns))
     = replicate (nat (count n)) (word n)"
proof (induction ns)
  case Nil
  then show ?case by simp
next
  case (Cons a ns)
  show ?case
  proof (cases "n = a")
    case True
    have "\<forall>x\<in>set ns. key (word x) \<noteq> key (word a)"
      using Cons.prems(1) by (fastforce simp: image_iff)
    from filter_occurrences_none [OF this] show ?thesis
      using True by simp
  next
    case False
    then have n: "n \<in> set ns"
      using Cons.prems(2) by simp
    then have "key (word a) \<noteq> key (word n)"
      using Cons.prems(1) by (fastforce simp: image_iff)
    then show ?thesis
      using Cons.IH [OF _ n] Cons.prems(1) by simp
  qed
qed

lemma lookup_merge_create:
  assumes ok: "table_ok m" and sz: "0 < sz"
  shows "table_ok (merge_hashmaps (create_hashmap sz) (Some m))"
    and "map_option (\<lambda>n. (word n, count n)) (lookup (merge_hashmaps (create_hashmap sz) (Some m)) k)
           = map_option (\<lambda>n. (word n, count n)) (lookup m k)"
proof -
  define ws where "ws = occurrences m"
  have wsD: "\<exists>n\<in>set (nodes m). w = word n" if "w \<in> set ws" for w
    using that unfolding ws_def occurrences_def by auto
  have short: "\<forall>w\<in>set ws. length (c_str w) < MAX_WORD_LEN"
    using wsD table_ok_nodeD(1,2) [OF ok] by (metis c_str_id)
  have mk: "word (\<lparr>word = take (MAX_WORD_LEN - 1) (c_str w), count = 1\<rparr> :: WordNode) = c_str w \<and>
           count (\<lparr>word = take (MAX_WORD_LEN - 1) (c_str w), count = 1\<rparr> :: WordNode) = 1"
    if "length (c_str w) < MAX_WORD_LEN" for w and h :: nat
    using take_short_word [OF that] by simp
  note F = fold_insert_with_lookup [where mk = "\<lambda>w h. \<lparr>word = take (MAX_WORD_LEN - 1) (c_str w), count = 1\<rparr>",
      OF sz mk short, folded insert_word_with]
  have M: "merge_hashmaps (create_hashmap sz) (Some m) = foldl insert_word (create_hashmap sz) ws"
    by (simp add: merge_hashmaps_occurrences ws_def)
  show "table_ok (merge_hashmaps (create_hashmap sz) (Some m))"
    using F unfolding M by blast
  have "(if k \<in> key ` set ws
         then Some (first_spelling ws k, int (length (filter (\<lambda>w. key w = k) ws)))
         else None) = map_option (\<lambda>n. (word n, count n)) (lookup m k)"
  proof (cases "lookup m k")
    case None
    then have "\<forall>n\<in>set (nodes m). key (word n) \<noteq> k"
      by (simp add: lookup_None_iff)
    then have "k \<notin> key ` set ws"
      using wsD by auto
    then show ?thesis
      using None by simp
  next
    case (Some n)
    then have n: "n \<in> set (nodes m)" "key (word n) = k"
      by (simp_all add: lookup_Some_iff [OF ok])
    have f: "filter (\<lambda>w. key w = k) ws = replicate (nat (count n)) (word n)"
      using filter_occurrences [OF table_ok_sizeD(5) [OF ok] n(1)] n(2)
      by (simp add: ws_def occurrences_def)
    have c: "1 \<le> count n" and w: "c_str (word n) = word n"
      using table_ok_nodeD(1,3) [OF ok n(1)] by (simp_all add: c_str_id)
    then have ne: "replicate (nat (count n)) (word n) \<noteq> []"
      by simp
    have "word n \<in> set (filter (\<lambda>w. key w = k) ws)"
      unfolding f using c by simp
    then have "word n \<in> set ws"
      by simp
    then have "k \<in> key ` set ws"
      using n(2) by auto
    moreover have "first_spelling ws k = word n"
      unfolding first_spelling_def f using ne w by (simp add: hd_replicate)
    ultimately show ?thesis
      using Some f c by simp
  qed
  then show "map_option (\<lambda>n. (word n, count n)) (lookup (merge_hashmaps (create_hashmap sz) (Some m)) k)
           = map_option (\<lambda>n. (word n, count n)) (lookup m k)"
    using F unfolding M by simp
qed

lemma entries_eq_of_lookup:
  fixes m1 m2 :: "WordNode HashMap"
  assumes ok1: "table_ok m1" and ok2: "table_ok m2"
    and eq: "\<And>k. map_option (\<lambda>n. (word n, count n)) (lookup m1 k) = map_option (\<lambda>n. (word n, count n)) (lookup m2 k)"
  shows "(\<lambda>n. (word n, count n)) ` set (nodes m1) = (\<lambda>n. (word n, count n)) ` set (nodes m2)"
    and "items m1 = items m2"
proof -
  have sub: "(\<lambda>n. (word n, count n)) ` set (nodes a) \<subseteq> (\<lambda>n. (word n, count n)) ` set (nodes b)"
    if oa: "table_ok a" and ob: "table_ok b"
      and e: "\<And>k. map_option (\<lambda>n. (word n, count n)) (lookup a k) = map_option (\<lambda>n. (word n, count n)) (lookup b k)"
    for a b :: "WordNode HashMap"
  proof
    fix x
    assume "x \<in> (\<lambda>n. (word n, count n)) ` set (nodes a)"
    then obtain n where n: "n \<in> set (nodes a)" "x = (word n, count n)"
      by auto
    then have "lookup a (key (word n)) = Some n"
      by (simp add: lookup_Some_iff [OF oa])
    then have "map_option (\<lambda>n. (word n, count n)) (lookup b (key (word n))) = Some x"
      using e [of "key (word n)"] n(2) by simp
    then obtain n2 where "lookup b (key (word n)) = Some n2" "(word n2, count n2) = x"
      by (cases "lookup b (key (word n))") auto
    then show "x \<in> (\<lambda>n. (word n, count n)) ` set (nodes b)"
      using lookup_Some_iff [OF ob] by force
  qed
  show "(\<lambda>n. (word n, count n)) ` set (nodes m1) = (\<lambda>n. (word n, count n)) ` set (nodes m2)"
    using sub [OF ok1 ok2 eq] sub [OF ok2 ok1 eq [symmetric]] by blast
  have keys: "(\<lambda>n. key (word n)) ` set (nodes a) = {k. lookup a k \<noteq> None}" for a :: "WordNode HashMap"
    by (auto simp: lookup_None_iff)
  have len: "length (nodes a) = card {k. lookup a k \<noteq> None}" if "table_ok a" for a :: "WordNode HashMap"
    using distinct_card [OF table_ok_sizeD(5) [OF that]] keys [of a] by simp
  have "{k. lookup m1 k \<noteq> None} = {k. lookup m2 k \<noteq> None}"
    using eq by (metis (no_types, lifting) map_option_is_None)
  then show "items m1 = items m2"
    using len [OF ok1] len [OF ok2] table_ok_sizeD(4) [OF ok1] table_ok_sizeD(4) [OF ok2] by simp
qed

lemma length_digits: "0 < d \<Longrightarrow> n < 10 ^ d \<Longrightarrow> length (digits n) \<le> d"
proof (induction n arbitrary: d rule: digits.induct)
  case (1 n)
  show ?case
  proof (cases "n < 10")
    case True
    then show ?thesis
      using "1.prems" by (subst digits.simps) simp
  next
    case False
    then have d: "1 < d"
      using "1.prems" by (cases "d = 1") auto
    then have "n div 10 < 10 ^ (d - 1)"
      using "1.prems"(2) by (cases d) (simp_all add: less_mult_imp_div_less mult.commute)
    from "1.IH" [OF False _ this] d have "length (digits (n div 10)) \<le> d - 1"
      by simp
    then show ?thesis
      using False d by (subst digits.simps) simp
  qed
qed

lemma length_record_of:
  assumes "length (word n) < MAX_WORD_LEN" "0 \<le> count n" "count n < 2 ^ 31"
  shows "length (record_of n) \<le> 111"
proof -
  have "nat (count n) < 10 ^ 10"
    using assms(2,3) by simp
  from length_digits [OF _ this] have "length (printf_d (count n)) \<le> 10"
    using assms(2) by (simp add: printf_d_def)
  moreover have "length (c_str (word n)) \<le> 99"
    using assms(1) length_takeWhile_le [of "\<lambda>c. c \<noteq> NUL" "word n"]
    by (simp add: c_str_def MAX_WORD_LEN_def)
  ultimately show ?thesis
    by (simp add: record_of_def)
qed

lemma length_records_bound:
  "(\<And>n. n \<in> set ns \<Longrightarrow> length (record_of n) \<le> 111) \<Longrightarrow>
   length (concat (map record_of ns)) \<le> 111 * length ns"
  by (induction ns) (simp_all add: add_mono)

lemma serialize_succeeds:
  assumes ok: "table_ok m" and size: "items m * 112 \<le> MAX_BUFFER_SIZE"
    and range: "list_all (\<lambda>n. count n < 2 ^ 31) (nodes m)"
  shows "\<exists>buffer len. serialize_hashmap m = Inr (buffer, len)"
proof -
  have "length (record_of n) \<le> 111" if "n \<in> set (nodes m)" for n
    using length_record_of [of n] table_ok_nodeD(2,3) [OF ok that] range that
    by (simp add: list_all_iff)
  from length_records_bound [OF this]
  have le: "length (concat (map record_of (nodes m))) \<le> 111 * length (nodes m)"
    by simp
  have L: "items m * (int MAX_WORD_LEN + 12) = 112 * int (length (nodes m))"
    using table_ok_sizeD(4) [OF ok] by (simp add: MAX_WORD_LEN_def)
  show ?thesis
  proof (cases "nodes m = []")
    case True
    then show ?thesis
      using size L by (simp add: serialize_hashmap_def MAX_WORD_LEN_def)
  next
    case False
    then have "0 + int (length (concat (map record_of (nodes m)))) < items m * (int MAX_WORD_LEN + 12)"
      using le L by (cases "nodes m") auto
    from serialize_nodes_fits [OF this, of "[]"] show ?thesis
      using size by (simp add: serialize_hashmap_def Let_def MAX_WORD_LEN_def)
  qed
qed

lemma serialize_create:
  "serialize_hashmap (create_hashmap sz) = Inr ([NUL], 1)"
  by (simp add: serialize_hashmap_def Let_def MAX_BUFFER_SIZE_def) (simp add: create_hashmap_def)

lemma deserialize_sentinel: "deserialize_hashmap g [NUL] 1 = g"
  by (simp add: deserialize_hashmap_def)

text \<open>
  Claim C3 (round trip): for every table that satisfies the invariant and whose words
  contain neither the colon nor the newline of the encoding, (1) serialization succeeds
  when \<open>items * 112\<close> is within the buffer bound and the counts are in the range of
  \<open>int\<close>; (2) whenever it succeeds, deserializing the buffer into an empty table gives a
  table with the same (word, count) entries and the same \<open>items\<close>, and every record of
  the buffer is well formed, one per node; (3) the empty table serializes to the single
  NUL byte, of length 1, and that buffer deserializes to the unchanged (empty) table.
\<close>

theorem serialize_roundtrip:
  fixes m :: "WordNode HashMap"
  assumes "table_ok m" and "wire_safe m" and "0 < sz"
  shows "(items m * 112 \<le> MAX_BUFFER_SIZE \<and> list_all (\<lambda>n. count n < 2 ^ 31) (nodes m) \<longrightarrow>
            (\<exists>buffer len. serialize_hashmap m = Inr (buffer, len))) \<and>
         (\<forall>buffer len. serialize_hashmap m = Inr (buffer, len) \<longrightarrow>
            (\<lambda>n. (word n, count n)) ` set (nodes (deserialize_hashmap (create_hashmap sz) buffer len))
              = (\<lambda>n. (word n, count n)) ` set (nodes m) \<and>
            items (deserialize_hashmap (create_hashmap sz) buffer len) = items m \<and>
            table_ok (deserialize_hashmap (create_hashmap sz) buffer len) \<and>
            list_all well_formed (records buffer len) \<and>
            length (records buffer len) = length (nodes m)) \<and>
         serialize_hashmap (create_hashmap sz :: WordNode HashMap) = Inr ([NUL], 1) \<and>
         deserialize_hashmap (create_hashmap sz) [NUL] 1 = create_hashmap sz"
proof (intro conjI allI impI)
  show "\<exists>buffer len. serialize_hashmap m = Inr (buffer, len)"
    if "items m * 112 \<le> MAX_BUFFER_SIZE \<and> list_all (\<lambda>n. count n < 2 ^ 31) (nodes m)"
    using serialize_succeeds [OF assms(1)] that by blast
next
  fix buffer len
  assume ser: "serialize_hashmap m = Inr (buffer, len)"
  note d = deserialize_serialized [OF assms(1,2) ser]
  note l = lookup_merge_create [OF assms(1,3)]
  have eq: "deserialize_hashmap (create_hashmap sz) buffer len = merge_hashmaps (create_hashmap sz) (Some m)"
    by (rule d(1))
  show "table_ok (deserialize_hashmap (create_hashmap sz) buffer len)"
    unfolding eq by (rule l(1))
  show "(\<lambda>n. (word n, count n)) ` set (nodes (deserialize_hashmap (create_hashmap sz) buffer len))
              = (\<lambda>n. (word n, count n)) ` set (nodes m)"
    unfolding eq by (rule entries_eq_of_lookup(1) [OF l(1) assms(1) l(2)])
  show "items (deserialize_hashmap (create_hashmap sz) buffer len) = items m"
    unfolding eq by (rule entries_eq_of_lookup(2) [OF l(1) assms(1) l(2)])
  show "list_all well_formed (records buffer len)"
    by (rule d(3))
  show "length (records buffer len) = length (nodes m)"
    by (simp add: d(2))
next
  show "serialize_hashmap (create_hashmap sz :: WordNode HashMap) = Inr ([NUL], 1)"
    by (rule serialize_create)
  show "deserialize_hashmap (create_hashmap sz) [NUL] 1 = create_hashmap sz"
    by (rule deserialize_sentinel)
qed

lemma apple_table:
  "table_ok (insert_word (create_hashmap HASH_TABLE_SIZE) ''apple'')"
  "set (nodes (insert_word (create_hashmap HASH_TABLE_SIZE) ''apple'')) = {\<lparr>word = ''apple'', count = 1\<rparr>}"
  "items (insert_word (create_hashmap HASH_TABLE_SIZE) ''apple'') = 1"
proof -
  define mk1 :: "string \<Rightarrow> nat \<Rightarrow> WordNode"
    where "mk1 = (\<lambda>w h. \<lparr>word = take (MAX_WORD_LEN - 1) (c_str w), count = 1\<rparr>)"
  have mk1: "word (mk1 ''apple'' h) = c_str ''apple'' \<and> count (mk1 ''apple'' h) = 1" for h
    unfolding mk1_def using take_short_word [OF short_words(1)] by simp
  have v1: "mk1 ''apple'' h = \<lparr>word = ''apple'', count = 1\<rparr>" for h
    unfolding mk1_def using take_short_word [OF short_words(1)] short_words(3) by simp
  show "table_ok (insert_word (create_hashmap HASH_TABLE_SIZE) ''apple'')"
    "set (nodes (insert_word (create_hashmap HASH_TABLE_SIZE) ''apple'')) = {\<lparr>word = ''apple'', count = 1\<rparr>}"
    "items (insert_word (create_hashmap HASH_TABLE_SIZE) ''apple'') = 1"
    using single_word_table [where mk = mk1, OF HASH_TABLE_SIZE_pos short_words(1) mk1]
    unfolding insert_word_with mk1_def [symmetric] v1 by simp_all
qed

theorem serialize_roundtrip_witness:
  "table_ok (insert_word (create_hashmap HASH_TABLE_SIZE) ''apple'') \<and>
   wire_safe (insert_word (create_hashmap HASH_TABLE_SIZE) ''apple'') \<and>
   0 < HASH_TABLE_SIZE \<and>
   (\<exists>buffer len.
      serialize_hashmap (insert_word (create_hashmap HASH_TABLE_SIZE) ''apple'') = Inr (buffer, len) \<and>
      (\<lambda>n. (word n, count n)) ` set (nodes (deserialize_hashmap (create_hashmap HASH_TABLE_SIZE) buffer len))
        = {(''apple'', 1)} \<and>
      items (deserialize_hashmap (create_hashmap HASH_TABLE_SIZE) buffer len) = 1)"
proof -
  define M :: "WordNode HashMap" where "M = insert_word (create_hashmap HASH_TABLE_SIZE) ''apple''"
  note A = apple_table [folded M_def]
  have safe: "wire_safe M"
    unfolding wire_safe_def list_all_iff A(2) by (simp add: COLON_def LF_def)
  have small: "items M * 112 \<le> MAX_BUFFER_SIZE \<and> list_all (\<lambda>n. count n < 2 ^ 31) (nodes M)"
    unfolding list_all_iff A(2) A(3) by (simp add: MAX_BUFFER_SIZE_def)
  note R = serialize_roundtrip [OF A(1) safe HASH_TABLE_SIZE_pos]
  from R [THEN conjunct1, THEN mp, OF small] obtain buffer len
    where ser: "serialize_hashmap M = Inr (buffer, len)"
    by blast
  from R [THEN conjunct2, THEN conjunct1, rule_format, OF ser]
  have "(\<lambda>n. (word n, count n)) ` set (nodes (deserialize_hashmap (create_hashmap HASH_TABLE_SIZE) buffer len))
        = {(''apple'', 1)}"
    and "items (deserialize_hashmap (create_hashmap HASH_TABLE_SIZE) buffer len) = 1"
    unfolding A(2) A(3) by simp_all
  then show ?thesis
    using A(1) safe HASH_TABLE_SIZE_pos ser unfolding M_def by blast
qed

section \<open>Concrete tables\<close>

lemma concat_replicate_update:
  "h < N \<Longrightarrow> concat ((replicate N [])[h := x]) = x"
  by (simp add: concat_update)

lemma concat_replicate_update2:
  assumes "h1 < h2" "h2 < N"
  shows "concat ((replicate N [])[h1 := x, h2 := y]) = x @ y"
proof -
  have "take h2 ((replicate N [])[h1 := x]) = (replicate h2 [])[h1 := x]"
    using assms by (simp add: take_update_swap min_def)
  moreover have "drop (Suc h2) ((replicate N [])[h1 := x]) = replicate (N - Suc h2) []"
    using assms by simp
  ultimately show ?thesis
    using assms concat_update [of h2 "(replicate N [])[h1 := x]" y]
    by (simp add: concat_replicate_update)
qed

lemma sample_hashes:
  "hash ''Apple'' HASH_TABLE_SIZE = 10943" "hash ''apple'' HASH_TABLE_SIZE = 10943"
  "hash ''B'' HASH_TABLE_SIZE = 11749" "hash ''a'' HASH_TABLE_SIZE = 10540"
  "hash ''x'' HASH_TABLE_SIZE = 4231" "hash ''cat'' HASH_TABLE_SIZE = 7175"
  by (simp_all add: hash_def HASH_TABLE_SIZE_def tolower_def NUL_def)

lemma nodes_record:
  "length bs = N \<Longrightarrow> nodes \<lparr>buckets = bs, size_hm = N, items = i\<rparr> = concat bs"
  by (simp add: nodes_concat)

lemma strcmp_Apple: "strcmp ''Apple'' ''apple'' \<noteq> 0" "strcmp ''B'' ''a'' < 0"
  by (simp_all add: peek_def)

lemma omp_Apple_table:
  "insert_word_omp (create_hashmap HASH_TABLE_SIZE) ''Apple'' =
     \<lparr>buckets = (replicate HASH_TABLE_SIZE [])[10943 := [\<lparr>word = ''Apple'', count = 1, hash_omp = 10943\<rparr>]],
      size_hm = HASH_TABLE_SIZE, items = 1\<rparr>"
  "insert_word_omp (create_hashmap HASH_TABLE_SIZE) ''apple'' =
     \<lparr>buckets = (replicate HASH_TABLE_SIZE [])[10943 := [\<lparr>word = ''apple'', count = 1, hash_omp = 10943\<rparr>]],
      size_hm = HASH_TABLE_SIZE, items = 1\<rparr>"
  by (simp_all add: insert_word_omp_def create_hashmap_def sample_hashes short_words)
     (simp_all add: HASH_TABLE_SIZE_def short_words)

text \<open>
  Claim C4 (the invariant is preserved), at a failing input of the OpenMP file. The
  tables of two files that hold \<open>Apple\<close> and \<open>apple\<close> have one node each. \<open>merge_hashmaps\<close>
  compares with \<open>strcmp\<close>, finds no node with the bytes \<open>apple\<close> and adds a second node:
  the merged table has two entries with the same case-folded word.
\<close>

theorem omp_merge_duplicates_word:
  "nodes (insert_word_omp (create_hashmap HASH_TABLE_SIZE) ''Apple'')
     = [\<lparr>word = ''Apple'', count = 1, hash_omp = 10943\<rparr>] \<and>
   nodes (insert_word_omp (create_hashmap HASH_TABLE_SIZE) ''apple'')
     = [\<lparr>word = ''apple'', count = 1, hash_omp = 10943\<rparr>] \<and>
   nodes (merge_hashmaps_omp (insert_word_omp (create_hashmap HASH_TABLE_SIZE) ''Apple'')
                             (insert_word_omp (create_hashmap HASH_TABLE_SIZE) ''apple''))
     = [\<lparr>word = ''apple'', count = 1, hash_omp = 10943\<rparr>,
        \<lparr>word = ''Apple'', count = 1, hash_omp = 10943\<rparr>] \<and>
   items (merge_hashmaps_omp (insert_word_omp (create_hashmap HASH_TABLE_SIZE) ''Apple'')
                             (insert_word_omp (create_hashmap HASH_TABLE_SIZE) ''apple'')) = 2 \<and>
   key ''apple'' = key ''Apple''"
proof -
  have n: "(10943::nat) < HASH_TABLE_SIZE"
    by (simp add: HASH_TABLE_SIZE_def)
  have a: "nodes (insert_word_omp (create_hashmap HASH_TABLE_SIZE) ''Apple'')
     = [\<lparr>word = ''Apple'', count = 1, hash_omp = 10943\<rparr>]"
    and b: "nodes (insert_word_omp (create_hashmap HASH_TABLE_SIZE) ''apple'')
     = [\<lparr>word = ''apple'', count = 1, hash_omp = 10943\<rparr>]"
    unfolding omp_Apple_table using n by (simp_all add: nodes_record concat_replicate_update)
  have m: "merge_hashmaps_omp (insert_word_omp (create_hashmap HASH_TABLE_SIZE) ''Apple'')
                             (insert_word_omp (create_hashmap HASH_TABLE_SIZE) ''apple'')
      = \<lparr>buckets = (replicate HASH_TABLE_SIZE [])[10943 :=
            [\<lparr>word = ''apple'', count = 1, hash_omp = 10943\<rparr>,
             \<lparr>word = ''Apple'', count = 1, hash_omp = 10943\<rparr>]],
         size_hm = HASH_TABLE_SIZE, items = 2\<rparr>"
    unfolding merge_hashmaps_omp_def b
    using n strcmp_Apple(1)
    by (simp add: omp_Apple_table(1) merge_node_omp_def sample_hashes short_words)
  show ?thesis
    unfolding m using a b n key_Apple(1)
    by (simp add: nodes_record concat_replicate_update)
qed

lemma concat_replicate_update2':
  assumes "h2 < h1" "h1 < N"
  shows "concat ((replicate N [])[h1 := x, h2 := y]) = y @ x"
proof -
  have "(replicate N [])[h1 := x, h2 := y] = (replicate N [])[h2 := y, h1 := x]"
    using assms by (simp add: list_update_swap)
  then show ?thesis
    using concat_replicate_update2 [OF assms, of y x] by simp
qed

lemma strncasecmp_numeral:
  "strncasecmp s t (numeral k) =
     (let a = tolower (peek s); b = tolower (peek t) in
      if a \<noteq> b then int (of_char a) - int (of_char b)
      else if a = NUL then 0
      else strncasecmp (tl s) (tl t) (pred_numeral k))"
  by (simp add: numeral_eq_Suc)

lemma strncasecmp_Apple: "strncasecmp ''Apple'' ''apple'' MAX_WORD_LEN = 0"
  using strncasecmp_key [of "''Apple''" MAX_WORD_LEN "''apple''"] key_Apple(1)
  by (simp add: MAX_WORD_LEN_def NUL_def key_def c_str_def)

lemma scan_file_samples:
  "scan_finish ins (foldl (scan_byte ins '' '') ([], m) ''Apple'') = ins m ''Apple''"
  "scan_finish ins (foldl (scan_byte ins '' '') ([], m) ''apple'') = ins m ''apple''"
  "scan_finish ins (foldl (scan_byte ins '' '') ([], m) ''B a'') = ins (ins m ''B'') ''a''"
  "scan_finish ins (foldl (scan_byte ins '' '') ([], m) ''cat '') = ins m ''cat''"
  by (simp_all add: scan_byte_def scan_finish_def LF_def CR_def NUL_def MAX_WORD_LEN_def)

text \<open>
  Claim C1 (merging equals sequential insertion), at a failing input of the OpenMP file:
  the words \<open>Apple\<close> and \<open>apple\<close>. Inserted one after the other into one table they make one
  entry of count 2. Put in two files, the two per-file tables merged into the global
  table (as \<open>process_files_sync\<close> does) make two entries of count 1.
\<close>

theorem omp_merge_differs_from_sequential:
  "map (\<lambda>n. (word n, count n))
     (nodes (foldl insert_word_omp (create_hashmap HASH_TABLE_SIZE) [''Apple'', ''apple'']))
     = [(''Apple'', 2)] \<and>
   map (\<lambda>n. (word n, count n))
     (nodes (process_files_sync
        (\<lambda>name. if name = ''a.txt'' then Opened ''Apple'' False
                 else if name = ''b.txt'' then Opened ''apple'' False else Unopenable)
        [''a.txt'', ''b.txt''] '' ''))
     = [(''apple'', 1), (''Apple'', 1)]"
proof -
  have n: "(10943::nat) < HASH_TABLE_SIZE"
    by (simp add: HASH_TABLE_SIZE_def)
  have seq: "foldl insert_word_omp (create_hashmap HASH_TABLE_SIZE) [''Apple'', ''apple'']
      = \<lparr>buckets = (replicate HASH_TABLE_SIZE [])[10943 := [\<lparr>word = ''Apple'', count = 2, hash_omp = 10943\<rparr>]],
         size_hm = HASH_TABLE_SIZE, items = 1\<rparr>"
    using n strncasecmp_Apple
    by (simp add: omp_Apple_table(1)) (simp add: insert_word_omp_def sample_hashes)
  have b: "nodes (insert_word_omp (create_hashmap HASH_TABLE_SIZE) ''apple'')
     = [\<lparr>word = ''apple'', count = 1, hash_omp = 10943\<rparr>]"
    and a: "nodes (insert_word_omp (create_hashmap HASH_TABLE_SIZE) ''Apple'')
     = [\<lparr>word = ''Apple'', count = 1, hash_omp = 10943\<rparr>]"
    unfolding omp_Apple_table using n by (simp_all add: nodes_record concat_replicate_update)
  have g1: "merge_hashmaps_omp (create_hashmap HASH_TABLE_SIZE)
              (insert_word_omp (create_hashmap HASH_TABLE_SIZE) ''Apple'')
            = insert_word_omp (create_hashmap HASH_TABLE_SIZE) ''Apple''"
    unfolding merge_hashmaps_omp_def a unfolding omp_Apple_table(1) using n
    by (simp add: merge_node_omp_def sample_hashes short_words create_hashmap_def)
  have g2: "merge_hashmaps_omp (insert_word_omp (create_hashmap HASH_TABLE_SIZE) ''Apple'')
                             (insert_word_omp (create_hashmap HASH_TABLE_SIZE) ''apple'')
      = \<lparr>buckets = (replicate HASH_TABLE_SIZE [])[10943 :=
            [\<lparr>word = ''apple'', count = 1, hash_omp = 10943\<rparr>,
             \<lparr>word = ''Apple'', count = 1, hash_omp = 10943\<rparr>]],
         size_hm = HASH_TABLE_SIZE, items = 2\<rparr>"
    unfolding merge_hashmaps_omp_def b
    using n strcmp_Apple(1)
    by (simp add: omp_Apple_table(1) merge_node_omp_def sample_hashes short_words)
  have files: "process_files_sync
        (\<lambda>name. if name = ''a.txt'' then Opened ''Apple'' False
                 else if name = ''b.txt'' then Opened ''apple'' False else Unopenable)
        [''a.txt'', ''b.txt''] '' ''
      = merge_hashmaps_omp
          (merge_hashmaps_omp (create_hashmap HASH_TABLE_SIZE)
             (insert_word_omp (create_hashmap HASH_TABLE_SIZE) ''Apple''))
          (insert_word_omp (create_hashmap HASH_TABLE_SIZE) ''apple'')"
  proof -
    have "process_file_sync
        (\<lambda>name. if name = ''a.txt'' then Opened ''Apple'' False
                 else if name = ''b.txt'' then Opened ''apple'' False else Unopenable) ''a.txt'' '' ''
        = Some (insert_word_omp (create_hashmap HASH_TABLE_SIZE) ''Apple'')"
      and "process_file_sync
        (\<lambda>name. if name = ''a.txt'' then Opened ''Apple'' False
                 else if name = ''b.txt'' then Opened ''apple'' False else Unopenable) ''b.txt'' '' ''
        = Some (insert_word_omp (create_hashmap HASH_TABLE_SIZE) ''apple'')"
      by (simp_all del: foldl_Cons add: process_file_sync_def scan_file_samples)
    then show ?thesis
      by (simp add: process_files_sync_def merge_file_omp_def)
  qed
  show ?thesis
    unfolding files g1 g2 seq using n by (simp add: nodes_record concat_replicate_update)
qed

text \<open>
  Claim C7 (ranking order), at a failing input of the OpenMP file: a file with the words
  \<open>B\<close> and \<open>a\<close>, once each. Ties are to be broken by the ascending order of the case-folded
  words, and \<open>a\<close> is before \<open>b\<close>; \<open>compare_words\<close> of the OpenMP file uses \<open>strcmp\<close> on the
  stored bytes and prints \<open>B\<close> first. The MPI file compares with \<open>strncasecmp\<close> and prints
  \<open>a\<close> first.
\<close>

theorem omp_ranking_not_case_folded:
  "process_file_sync (\<lambda>name. Opened ''B a'' False) ''f.txt'' '' ''
     = Some (foldl insert_word_omp (create_hashmap HASH_TABLE_SIZE) [''B'', ''a'']) \<and>
   print_results_omp (foldl insert_word_omp (create_hashmap HASH_TABLE_SIZE) [''B'', ''a'']) 2
     = [\<lparr>word = ''B'', count = 1\<rparr>, \<lparr>word = ''a'', count = 1\<rparr>] \<and>
   key ''a'' < key ''B'' \<and>
   print_results (foldl insert_word (create_hashmap HASH_TABLE_SIZE) [''B'', ''a'']) 2
     = [\<lparr>word = ''a'', count = 1\<rparr>, \<lparr>word = ''B'', count = 1\<rparr>]"
proof -
  have n: "(11749::nat) < HASH_TABLE_SIZE" "(10540::nat) < HASH_TABLE_SIZE"
    by (simp_all add: HASH_TABLE_SIZE_def)
  have cs: "c_str ''B'' = ''B''" "c_str ''a'' = ''a''"
    by (simp_all add: c_str_def NUL_def)
  have omp: "foldl insert_word_omp (create_hashmap HASH_TABLE_SIZE) [''B'', ''a'']
      = \<lparr>buckets = (replicate HASH_TABLE_SIZE [])
            [11749 := [\<lparr>word = ''B'', count = 1, hash_omp = 11749\<rparr>],
             10540 := [\<lparr>word = ''a'', count = 1, hash_omp = 10540\<rparr>]],
         size_hm = HASH_TABLE_SIZE, items = 2\<rparr>"
    using n by (simp add: insert_word_omp_def create_hashmap_def sample_hashes cs)
  have mpi: "foldl insert_word (create_hashmap HASH_TABLE_SIZE) [''B'', ''a'']
      = \<lparr>buckets = (replicate HASH_TABLE_SIZE [])
            [11749 := [\<lparr>word = ''B'', count = 1\<rparr>],
             10540 := [\<lparr>word = ''a'', count = 1\<rparr>]],
         size_hm = HASH_TABLE_SIZE, items = 2\<rparr>"
    using n by (simp add: insert_word_def create_hashmap_def sample_hashes cs MAX_WORD_LEN_def)
  have c1: "strcmp ''a'' ''B'' > 0"
    by (simp add: peek_def)
  have c2: "strncasecmp ''a'' ''B'' 100 < 0"
    by (simp add: strncasecmp_numeral peek_def tolower_def)
  have k: "key ''a'' < key ''B''"
    by (simp add: key_def c_str_def NUL_def tolower_def)
  have pf: "process_file_sync (\<lambda>name. Opened ''B a'' False) ''f.txt'' '' ''
     = Some (foldl insert_word_omp (create_hashmap HASH_TABLE_SIZE) [''B'', ''a''])"
    by (simp del: foldl_Cons add: process_file_sync_def scan_file_samples) simp
  have po: "print_results_omp (foldl insert_word_omp (create_hashmap HASH_TABLE_SIZE) [''B'', ''a'']) 2
     = [\<lparr>word = ''B'', count = 1\<rparr>, \<lparr>word = ''a'', count = 1\<rparr>]"
    unfolding omp using n c1
    by (simp add: print_results_omp_def nodes_record concat_replicate_update2' qsort_def
          compare_words_omp_def)
  have pm: "print_results (foldl insert_word (create_hashmap HASH_TABLE_SIZE) [''B'', ''a'']) 2
     = [\<lparr>word = ''a'', count = 1\<rparr>, \<lparr>word = ''B'', count = 1\<rparr>]"
    unfolding mpi using n c2
    by (simp add: print_results_def nodes_record concat_replicate_update2' qsort_def
          compare_words_def cs MAX_WORD_LEN_def)
  show ?thesis
    by (intro conjI pf po k pm)
qed

text \<open>
  Claim C8 (read errors), at a failing input of the OpenMP file: a file whose reads
  deliver \<open>cat\<close> and a space and then fail. \<open>process_file\<close> of the MPI file checks \<open>ferror\<close>
  and returns no table. \<open>process_file_sync\<close> of the OpenMP file has no such check: it
  returns the partial table, and the aggregate contains \<open>cat\<close>, unlike the aggregate over
  the files that succeeded (none).
\<close>

theorem omp_read_error_keeps_partial_table:
  "process_file (\<lambda>name. Opened ''cat '' True) ''f.txt'' '' '' = None \<and>
   process_file_sync (\<lambda>name. Opened ''cat '' True) ''f.txt'' '' ''
     = Some (insert_word_omp (create_hashmap HASH_TABLE_SIZE) ''cat'') \<and>
   map (\<lambda>n. (word n, count n)) (nodes (process_files_sync (\<lambda>name. Opened ''cat '' True) [''f.txt''] '' ''))
     = [(''cat'', 1)] \<and>
   nodes (process_files_sync (\<lambda>name. Opened ''cat '' True) [] '' '') = []"
proof -
  have n: "(7175::nat) < HASH_TABLE_SIZE"
    by (simp add: HASH_TABLE_SIZE_def)
  have cs: "c_str ''cat'' = ''cat''"
    by (simp add: c_str_def NUL_def)
  have t: "insert_word_omp (create_hashmap HASH_TABLE_SIZE) ''cat''
      = \<lparr>buckets = (replicate HASH_TABLE_SIZE [])[7175 := [\<lparr>word = ''cat'', count = 1, hash_omp = 7175\<rparr>]],
         size_hm = HASH_TABLE_SIZE, items = 1\<rparr>"
    using n by (simp add: insert_word_omp_def create_hashmap_def sample_hashes cs)
  have nt: "nodes (insert_word_omp (create_hashmap HASH_TABLE_SIZE) ''cat'')
      = [\<lparr>word = ''cat'', count = 1, hash_omp = 7175\<rparr>]"
    unfolding t using n by (simp add: nodes_record concat_replicate_update)
  have g: "merge_hashmaps_omp (create_hashmap HASH_TABLE_SIZE)
              (insert_word_omp (create_hashmap HASH_TABLE_SIZE) ''cat'')
            = insert_word_omp (create_hashmap HASH_TABLE_SIZE) ''cat''"
    unfolding merge_hashmaps_omp_def nt unfolding t using n
    by (simp add: merge_node_omp_def sample_hashes cs create_hashmap_def)
  have p: "process_file_sync (\<lambda>name. Opened ''cat '' True) ''f.txt'' '' ''
     = Some (insert_word_omp (create_hashmap HASH_TABLE_SIZE) ''cat'')"
    by (simp del: foldl_Cons add: process_file_sync_def scan_file_samples)
  have q: "process_file (\<lambda>name. Opened ''cat '' True) ''f.txt'' '' '' = None"
    by (simp add: process_file_def Let_def)
  show ?thesis
    using p q by (simp add: process_files_sync_def merge_file_omp_def g nt)
qed

section \<open>Ranking\<close>

lemma char_less_iff: "a < b \<longleftrightarrow> (of_char a :: nat) < of_char b" for a b :: char
  by (simp add: less_char_def)

lemma of_char_NUL: "(of_char c :: nat) = 0 \<longleftrightarrow> c = NUL"
proof
  assume "(of_char c :: nat) = 0"
  then have "(of_char c :: nat) = of_char (CHR 0x00)"
    by simp
  then show "c = NUL"
    unfolding NUL_def by (simp only: of_char_eq_iff)
qed (simp add: NUL_def)

lemma of_char_NUL0 [simp]: "(of_char NUL :: nat) = 0"
  by (simp add: NUL_def)

lemma of_char_diff_le:
  "a \<noteq> b \<Longrightarrow> int (of_char a) - int (of_char b) \<le> 0 \<longleftrightarrow> a < b" for a b :: char
  by (auto simp: char_less_iff less_le)

lemma of_char_pos: "c \<noteq> NUL \<Longrightarrow> 0 < int (of_char c)"
  using of_char_NUL [of c] by simp

lemma strncasecmp_le:
  "NUL \<notin> set s \<Longrightarrow> NUL \<notin> set t \<Longrightarrow> length s < n \<Longrightarrow>
   strncasecmp s t n \<le> 0 \<longleftrightarrow> map tolower s \<le> map tolower t"
proof (induction n arbitrary: s t)
  case 0
  then show ?case by simp
next
  case (Suc n)
  show ?case
  proof (cases s)
    case Nil
    then show ?thesis
      using Suc.prems of_char_pos by (cases t) (auto simp: Let_def)
  next
    case s: (Cons x s')
    show ?thesis
    proof (cases t)
      case Nil
      then show ?thesis
        using s Suc.prems of_char_pos [of "tolower x"] by (auto simp: Let_def)
    next
      case (Cons c t')
      have "strncasecmp s' t' n \<le> 0 \<longleftrightarrow> map tolower s' \<le> map tolower t'"
        using Suc.IH [of s' t'] Suc.prems s Cons by simp
      then show ?thesis
        using s Cons Suc.prems of_char_diff_le [of "tolower x" "tolower c"]
        by (auto simp: Let_def)
    qed
  qed
qed

lemma strcmp_le:
  "NUL \<notin> set s \<Longrightarrow> NUL \<notin> set t \<Longrightarrow> strcmp s t \<le> 0 \<longleftrightarrow> s \<le> t"
proof (induction s arbitrary: t)
  case Nil
  then show ?case
    by (cases t) simp_all
next
  case (Cons x s')
  show ?case
  proof (cases t)
    case Nil
    then show ?thesis
      using Cons.prems of_char_pos [of x] by auto
  next
    case t: (Cons c t')
    then show ?thesis
      using Cons.IH [of t'] Cons.prems of_char_diff_le [of x c] by auto
  qed
qed

lemma insert_sorted_insort:
  assumes "\<And>y. y \<in> set ys \<Longrightarrow> cmp x y \<le> 0 \<longleftrightarrow> f x \<le> f y"
  shows "insert_sorted cmp x ys = insort_key f x ys"
  using assms by (induction ys) simp_all

lemma qsort_sort_key:
  assumes "\<And>x y. x \<in> set xs \<Longrightarrow> y \<in> set xs \<Longrightarrow> cmp x y \<le> 0 \<longleftrightarrow> f x \<le> f y"
  shows "qsort cmp xs = sort_key f xs"
  using assms
proof (induction xs)
  case Nil
  then show ?case by (simp add: qsort_def)
next
  case (Cons a xs)
  have "qsort cmp xs = sort_key f xs"
    by (rule Cons.IH) (use Cons.prems in auto)
  moreover have "insert_sorted cmp a (sort_key f xs) = insort_key f a (sort_key f xs)"
    by (rule insert_sorted_insort) (use Cons.prems in auto)
  ultimately show ?case
    by (simp add: qsort_def sort_key_def)
qed

lemma compare_words_rank_key:
  assumes "NUL \<notin> set (word x)" "NUL \<notin> set (word y)" "length (word x) < MAX_WORD_LEN"
  shows "compare_words x y \<le> 0 \<longleftrightarrow> rank_key x \<le> rank_key y"
  using strncasecmp_le [OF assms] assms(1,2)
  by (auto simp: compare_words_def rank_key_def key_NUL_free less_eq_prod_def)

lemma compare_words_omp_rank_key:
  assumes "NUL \<notin> set (word x)" "NUL \<notin> set (word y)"
  shows "compare_words_omp x y \<le> 0 \<longleftrightarrow> rank_key_omp x \<le> rank_key_omp y"
  using strcmp_le [OF assms]
  by (auto simp: compare_words_omp_def rank_key_omp_def less_eq_prod_def)

lemma counts_absent:
  "\<forall>n\<in>set ns. key (word n) \<noteq> k \<Longrightarrow>
   sum_list (map (\<lambda>n. if key (word n) = k then count n else 0) ns) = 0"
  by (induction ns) simp_all

lemma counts_present:
  "distinct (map (\<lambda>n. key (word n)) ns) \<Longrightarrow> n \<in> set ns \<Longrightarrow>
   sum_list (map (\<lambda>x. if key (word x) = key (word n) then count x else 0) ns) = count n"
proof (induction ns)
  case Nil
  then show ?case by simp
next
  case (Cons a ns)
  show ?case
  proof (cases "n = a")
    case True
    have "\<forall>x\<in>set ns. key (word x) \<noteq> key (word a)"
      using Cons.prems(1) by (fastforce simp: image_iff)
    from counts_absent [OF this] show ?thesis
      using True by simp
  next
    case False
    then have n: "n \<in> set ns"
      using Cons.prems(2) by simp
    then have "key (word a) \<noteq> key (word n)"
      using Cons.prems(1) by (fastforce simp: image_iff)
    then show ?thesis
      using Cons.IH [OF _ n] Cons.prems(1) by simp
  qed
qed

lemma counts_lookup:
  assumes "table_ok m"
  shows "counts m k = (case lookup m k of None \<Rightarrow> 0 | Some n \<Rightarrow> count n)"
proof (cases "lookup m k")
  case None
  then have "\<forall>n\<in>set (nodes m). key (word n) \<noteq> k"
    by (simp add: lookup_None_iff)
  from counts_absent [OF this] show ?thesis
    using None by (simp add: counts_def)
next
  case (Some n)
  then have "n \<in> set (nodes m)" "key (word n) = k"
    by (simp_all add: lookup_Some_iff [OF assms])
  then show ?thesis
    using counts_present [OF table_ok_sizeD(5) [OF assms], of n] Some by (auto simp: counts_def)
qed

lemma folded_rows_by_counts:
  assumes "table_ok m"
  shows "set (map folded_row (nodes m)) = {(k, c). 1 \<le> c \<and> counts m k = c}"
proof (intro set_eqI iffI)
  fix x
  assume "x \<in> set (map folded_row (nodes m))"
  then obtain n where n: "n \<in> set (nodes m)" "x = folded_row n"
    by auto
  then have "lookup m (key (word n)) = Some n"
    by (simp add: lookup_Some_iff [OF assms])
  then have "counts m (key (word n)) = count n"
    by (simp add: counts_lookup [OF assms])
  then show "x \<in> {(k, c). 1 \<le> c \<and> counts m k = c}"
    using n table_ok_nodeD(3) [OF assms n(1)] by (simp add: folded_row_def)
next
  fix x
  assume "x \<in> {(k, c). 1 \<le> c \<and> counts m k = c}"
  then obtain k c where x: "x = (k, c)" "1 \<le> c" "counts m k = c"
    by auto
  then obtain n where "lookup m k = Some n" "count n = c"
    using counts_lookup [OF assms, of k] by (cases "lookup m k") auto
  then have "n \<in> set (nodes m)" "folded_row n = x"
    using x by (simp_all add: lookup_Some_iff [OF assms] folded_row_def)
  then show "x \<in> set (map folded_row (nodes m))"
    by force
qed

lemma rank_key_folded: "rank_key n = (- snd (folded_row n), fst (folded_row n))"
  and folded_rank_key: "folded_row n = (snd (rank_key n), - fst (rank_key n))"
  by (simp_all add: rank_key_def folded_row_def)

lemma mpi_rows_copy:
  fixes m :: "WordNode HashMap"
  assumes "table_ok m"
  shows "map (\<lambda>current. \<lparr>word = take (MAX_WORD_LEN - 1) (c_str (word current)), count = count current\<rparr>) (nodes m)
           = nodes m"
proof (rule map_idI)
  fix n
  assume n: "n \<in> set (nodes m)"
  have "take (MAX_WORD_LEN - 1) (c_str (word n)) = word n"
    using table_ok_nodeD(1,2) [OF assms n] by (simp add: c_str_id MAX_WORD_LEN_def)
  then show "\<lparr>word = take (MAX_WORD_LEN - 1) (c_str (word n)), count = count n\<rparr> = n"
    by simp
qed

lemma print_results_sort_key:
  fixes m :: "WordNode HashMap"
  assumes "table_ok m"
  shows "print_results m t = take (nat (min (items m) t)) (sort_key rank_key (nodes m))"
proof -
  have "qsort compare_words (nodes m) = sort_key rank_key (nodes m)"
    by (rule qsort_sort_key) (use table_ok_nodeD(1,2) [OF assms] compare_words_rank_key in blast)
  then show ?thesis
    unfolding print_results_def mpi_rows_copy [OF assms] by simp
qed

lemma sorted_rows_unique:
  fixes m1 m2 :: "WordNode HashMap"
  assumes ok1: "table_ok m1" and ok2: "table_ok m2"
    and eq: "\<And>k. counts m1 k = counts m2 k"
  shows "map folded_row (sort_key rank_key (nodes m1)) = map folded_row (sort_key rank_key (nodes m2))"
    and "items m1 = items m2"
proof -
  have S: "set (map folded_row (nodes m1)) = set (map folded_row (nodes m2))"
    unfolding folded_rows_by_counts [OF ok1] folded_rows_by_counts [OF ok2] using eq by simp
  have inj: "inj_on rank_key (set (nodes m))" if "table_ok m" for m :: "WordNode HashMap"
    using table_ok_sizeD(5) [OF that]
    by (auto simp: distinct_map inj_on_def rank_key_def)
  have dist: "distinct (map rank_key (sort_key rank_key (nodes m)))" if "table_ok m" for m :: "WordNode HashMap"
    using inj [OF that] table_ok_sizeD(5) [OF that] by (simp add: distinct_map)
  have sets: "set (map rank_key (sort_key rank_key (nodes m)))
      = (\<lambda>r. (- snd r, fst r)) ` set (map folded_row (nodes m))" for m :: "WordNode HashMap"
    by (auto simp: rank_key_def folded_row_def image_iff)
  have "map rank_key (sort_key rank_key (nodes m1)) = map rank_key (sort_key rank_key (nodes m2))"
    by (rule sorted_distinct_set_unique)
       (simp_all only: sorted_sort_key dist [OF ok1] dist [OF ok2] sets S)
  then have "map (\<lambda>r. (snd r, - fst r)) (map rank_key (sort_key rank_key (nodes m1)))
      = map (\<lambda>r. (snd r, - fst r)) (map rank_key (sort_key rank_key (nodes m2)))"
    by simp
  moreover have "folded_row = (\<lambda>x :: WordNode. (snd (rank_key x), - fst (rank_key x)))"
    by (intro ext) (simp add: rank_key_def folded_row_def)
  ultimately show "map folded_row (sort_key rank_key (nodes m1)) = map folded_row (sort_key rank_key (nodes m2))"
    by (simp add: comp_def)
  have dk: "distinct (map folded_row (nodes m))" if "table_ok m" for m :: "WordNode HashMap"
    using table_ok_sizeD(5) [OF that] by (auto simp: distinct_map inj_on_def folded_row_def)
  have "length (nodes m1) = card (set (map folded_row (nodes m1)))"
    using distinct_card [OF dk [OF ok1]] by simp
  also have "\<dots> = card (set (map folded_row (nodes m2)))"
    by (simp only: S)
  also have "\<dots> = length (nodes m2)"
    using distinct_card [OF dk [OF ok2]] by simp
  finally show "items m1 = items m2"
    using table_ok_sizeD(4) [OF ok1] table_ok_sizeD(4) [OF ok2] by simp
qed

lemma print_results_by_counts:
  fixes m1 m2 :: "WordNode HashMap"
  assumes "table_ok m1" "table_ok m2" "\<And>k. counts m1 k = counts m2 k"
  shows "map folded_row (print_results m1 t) = map folded_row (print_results m2 t)"
  using sorted_rows_unique [OF assms]
  by (simp add: print_results_sort_key assms(1,2) take_map [symmetric])

lemma mpi_ranking_sorted:
  fixes m :: "WordNode HashMap"
  assumes "table_ok m"
  shows "sorted (map rank_key (print_results m t))"
    and "length (print_results m t) = nat (min (items m) t)"
    and "set (print_results m t) \<subseteq> set (nodes m)"
proof -
  show "sorted (map rank_key (print_results m t))"
    unfolding print_results_sort_key [OF assms] take_map [symmetric]
    by (rule sorted_wrt_take) simp
  have "nat (min (int (length (nodes m))) t) \<le> length (nodes m)"
    by linarith
  then show "length (print_results m t) = nat (min (items m) t)"
    unfolding print_results_sort_key [OF assms] table_ok_sizeD(4) [OF assms]
    by (simp only: length_take length_sort min_absorb2)
  show "set (print_results m t) \<subseteq> set (nodes m)"
    unfolding print_results_sort_key [OF assms] using set_take_subset [of _ "sort_key rank_key (nodes m)"]
    by simp
qed

section \<open>Tables of the MPI program\<close>

lemma insert_word_nodes:
  assumes ok: "table_ok m" and len: "length (c_str w) < MAX_WORD_LEN"
    and n: "n \<in> set (nodes (insert_word m w))"
  shows "word n = c_str w \<or> (\<exists>n0\<in>set (nodes m). word n = word n0)"
proof (cases "\<exists>n0\<in>set (nodes m). key (word n0) = key w")
  case True
  then obtain n0 where n0: "n0 \<in> set (nodes m)" "key (word n0) = key w"
    by blast
  from insert_with_found_nodes(2) [OF ok n0, of "\<lambda>w h. \<lparr>word = take (MAX_WORD_LEN - 1) (c_str w), count = 1\<rparr>"]
  have "n = n0\<lparr>count := count n0 + 1\<rparr> \<or> n \<in> set (nodes m)"
    using n unfolding insert_word_with by auto
  then show ?thesis
    using n0(1) by auto
next
  case False
  then have fresh: "\<forall>n0\<in>set (nodes m). key (word n0) \<noteq> key w"
    by blast
  have a: "word (\<lparr>word = take (MAX_WORD_LEN - 1) (c_str w), count = 1\<rparr> :: WordNode) = c_str w"
    and b: "count (\<lparr>word = take (MAX_WORD_LEN - 1) (c_str w), count = 1\<rparr> :: WordNode) = 1"
    using take_short_word [OF len] by simp_all
  have "set (nodes (insert_word m w))
      = insert \<lparr>word = take (MAX_WORD_LEN - 1) (c_str w), count = 1\<rparr> (set (nodes m))"
    unfolding insert_word_with
    by (rule insert_with_fresh_nodes(2) [OF ok fresh len]) (rule a b)+
  then show ?thesis
    using n take_short_word [OF len] by auto
qed

lemma table_ok_insert_word:
  assumes "table_ok m" "length (c_str w) < MAX_WORD_LEN"
  shows "table_ok (insert_word m w)"
proof -
  have a: "word (\<lparr>word = take (MAX_WORD_LEN - 1) (c_str w), count = 1\<rparr> :: WordNode) = c_str w"
    and b: "count (\<lparr>word = take (MAX_WORD_LEN - 1) (c_str w), count = 1\<rparr> :: WordNode) = 1"
    using take_short_word [OF assms(2)] by simp_all
  show ?thesis
    unfolding insert_word_with by (rule table_ok_insert_with [OF assms]) (rule a b)+
qed

lemma stored_key_short: "length (c_str w) < MAX_WORD_LEN \<Longrightarrow> stored_key w = key w"
  by (simp add: stored_key_def take_short_word)

lemma fold_insert_props:
  assumes "table_ok d" "\<forall>n\<in>set (nodes d). \<forall>c\<in>set (word n). Q c"
    and "\<forall>w\<in>set ws. length (c_str w) < MAX_WORD_LEN \<and> (\<forall>c\<in>set (c_str w). Q c)"
  shows "table_ok (foldl insert_word d ws) \<and>
         (\<forall>n\<in>set (nodes (foldl insert_word d ws)). \<forall>c\<in>set (word n). Q c) \<and>
         (\<forall>k. counts (foldl insert_word d ws) k = counts d k + int (length (filter (\<lambda>w. key w = k) ws)))"
  using assms
proof (induction ws arbitrary: d)
  case Nil
  then show ?case by simp
next
  case (Cons w ws)
  have len: "length (c_str w) < MAX_WORD_LEN" and q: "\<forall>c\<in>set (c_str w). Q c"
    using Cons.prems(3) by simp_all
  have ok': "table_ok (insert_word d w)"
    by (rule table_ok_insert_word [OF Cons.prems(1) len])
  have q': "\<forall>n\<in>set (nodes (insert_word d w)). \<forall>c\<in>set (word n). Q c"
    using insert_word_nodes [OF Cons.prems(1) len] Cons.prems(2) q by metis
  have c': "counts (insert_word d w) k = counts d k + (if key w = k then 1 else 0)" for k
    using counts_insert_word(2) [OF table_ok_wf [OF Cons.prems(1)], of w k] stored_key_short [OF len]
    by simp
  have rest: "\<forall>w\<in>set ws. length (c_str w) < MAX_WORD_LEN \<and> (\<forall>c\<in>set (c_str w). Q c)"
    using Cons.prems(3) by simp
  from Cons.IH [OF ok' q' rest] show ?case
    by (simp add: c')
qed

lemma occurrences_count:
  assumes "table_ok m"
  shows "int (length (filter (\<lambda>w. key w = k) (occurrences m))) = counts m k"
proof -
  have "int (length (filter (\<lambda>w. key w = k) (concat (map (\<lambda>n. replicate (nat (count n)) (word n)) ns))))
      = sum_list (map (\<lambda>n. if key (word n) = k then count n else 0) ns)"
    if "\<forall>n\<in>set ns. 0 \<le> count n" for ns :: "'a WordNode_scheme list"
    using that by (induction ns) simp_all
  moreover have "\<forall>n\<in>set (nodes m). 0 \<le> count n"
    using table_ok_nodeD(3) [OF assms] by force
  ultimately show ?thesis
    by (simp add: occurrences_def counts_def)
qed

lemma merge_hashmaps_props:
  assumes d: "table_ok d" "\<forall>n\<in>set (nodes d). \<forall>c\<in>set (word n). Q c"
    and m: "table_ok m" "\<forall>n\<in>set (nodes m). \<forall>c\<in>set (word n). Q c"
  shows "table_ok (merge_hashmaps d (Some m))"
    and "\<forall>n\<in>set (nodes (merge_hashmaps d (Some m))). \<forall>c\<in>set (word n). Q c"
    and "counts (merge_hashmaps d (Some m)) k = counts d k + counts m k"
proof -
  have ws: "\<forall>w\<in>set (occurrences m). length (c_str w) < MAX_WORD_LEN \<and> (\<forall>c\<in>set (c_str w). Q c)"
  proof
    fix w
    assume "w \<in> set (occurrences m)"
    then obtain n where n: "n \<in> set (nodes m)" "w = word n"
      unfolding occurrences_def by auto
    then show "length (c_str w) < MAX_WORD_LEN \<and> (\<forall>c\<in>set (c_str w). Q c)"
      using table_ok_nodeD(1,2) [OF m(1) n(1)] m(2) by (simp add: c_str_id)
  qed
  note F = fold_insert_props [OF d ws, folded merge_hashmaps_occurrences]
  show "table_ok (merge_hashmaps d (Some m))"
    and "\<forall>n\<in>set (nodes (merge_hashmaps d (Some m))). \<forall>c\<in>set (word n). Q c"
    using F by blast+
  show "counts (merge_hashmaps d (Some m)) k = counts d k + counts m k"
    using F occurrences_count [OF m(1), of k] by simp
qed

lemma scan_invariant:
  assumes "length wb < MAX_WORD_LEN" "\<forall>c\<in>set wb. \<not> delim_byte delims c"
    "table_ok m" "\<forall>n\<in>set (nodes m). \<forall>c\<in>set (word n). \<not> delim_byte delims c"
  shows "case foldl (scan_byte insert_word delims) (wb, m) bs of (wb', m') \<Rightarrow>
           length wb' < MAX_WORD_LEN \<and> (\<forall>c\<in>set wb'. \<not> delim_byte delims c) \<and>
           table_ok m' \<and> (\<forall>n\<in>set (nodes m'). \<forall>c\<in>set (word n). \<not> delim_byte delims c)"
  using assms
proof (induction bs arbitrary: wb m)
  case Nil
  then show ?case by simp
next
  case (Cons b bs)
  obtain wb1 m1 where st: "scan_byte insert_word delims (wb, m) b = (wb1, m1)"
    by (cases "scan_byte insert_word delims (wb, m) b")
  have cs: "length (c_str wb) < MAX_WORD_LEN \<and> (\<forall>c\<in>set (c_str wb). \<not> delim_byte delims c)"
    using Cons.prems(1,2) length_takeWhile_le [of "\<lambda>c. c \<noteq> NUL" wb] set_takeWhileD [of _ "\<lambda>c. c \<noteq> NUL" wb]
    unfolding c_str_def by (metis le_less_trans)
  have ins: "table_ok (insert_word m wb) \<and>
      (\<forall>n\<in>set (nodes (insert_word m wb)). \<forall>c\<in>set (word n). \<not> delim_byte delims c)"
    using fold_insert_props [OF Cons.prems(3,4), of "[wb]"] cs by simp
  have "length wb1 < MAX_WORD_LEN \<and> (\<forall>c\<in>set wb1. \<not> delim_byte delims c) \<and>
        table_ok m1 \<and> (\<forall>n\<in>set (nodes m1). \<forall>c\<in>set (word n). \<not> delim_byte delims c)"
    using st Cons.prems ins
    by (auto simp: scan_byte_def delim_byte_def MAX_WORD_LEN_def split: if_splits)
  then show ?case
    using Cons.IH [of wb1 m1] st by simp
qed

lemma foldl_chunks: "foldl (\<lambda>st chunk. foldl f st chunk) st chunks = foldl f st (concat chunks)"
  by (induction chunks arbitrary: st) simp_all

lemma process_file_table:
  assumes "process_file fs filename delims = Some t"
  shows "table_ok t" and "\<forall>n\<in>set (nodes t). \<forall>c\<in>set (word n). \<not> delim_byte delims c"
proof -
  from assms obtain bytes where
    t: "t = scan_finish insert_word
             (foldl (scan_byte insert_word delims) ([], create_hashmap HASH_TABLE_SIZE)
                (concat (fread_chunks (CHUNK_SIZE - 1) bytes)))"
    by (auto simp: process_file_def Let_def foldl_chunks split: input_file.splits if_splits)
  obtain wb m where st: "foldl (scan_byte insert_word delims) ([], create_hashmap HASH_TABLE_SIZE)
                (concat (fread_chunks (CHUNK_SIZE - 1) bytes)) = (wb, m)"
    by (cases "foldl (scan_byte insert_word delims) ([], create_hashmap HASH_TABLE_SIZE)
                (concat (fread_chunks (CHUNK_SIZE - 1) bytes))")
  have inv: "length wb < MAX_WORD_LEN \<and> (\<forall>c\<in>set wb. \<not> delim_byte delims c) \<and>
           table_ok m \<and> (\<forall>n\<in>set (nodes m). \<forall>c\<in>set (word n). \<not> delim_byte delims c)"
    using scan_invariant [of "[]" delims "create_hashmap HASH_TABLE_SIZE"
        "concat (fread_chunks (CHUNK_SIZE - 1) bytes)"] st
    by (simp add: table_ok_create HASH_TABLE_SIZE_pos MAX_WORD_LEN_def)
  have cs: "length (c_str wb) < MAX_WORD_LEN \<and> (\<forall>c\<in>set (c_str wb). \<not> delim_byte delims c)"
    using inv length_takeWhile_le [of "\<lambda>c. c \<noteq> NUL" wb] set_takeWhileD [of _ "\<lambda>c. c \<noteq> NUL" wb]
    unfolding c_str_def by (metis le_less_trans)
  have ins: "table_ok (insert_word m wb) \<and>
      (\<forall>n\<in>set (nodes (insert_word m wb)). \<forall>c\<in>set (word n). \<not> delim_byte delims c)"
    using fold_insert_props [of m "\<lambda>c. \<not> delim_byte delims c" "[wb]"] inv cs by simp
  show "table_ok t" and "\<forall>n\<in>set (nodes t). \<forall>c\<in>set (word n). \<not> delim_byte delims c"
    using inv ins unfolding t st scan_finish_def by auto
qed

lemma delims_mpi_wire:
  "delim_byte delims_mpi COLON" "delim_byte delims_mpi LF"
  by (simp_all add: delim_byte_def delims_mpi_def COLON_def NUL_def)

lemma wire_safe_delims_mpi:
  "\<forall>n\<in>set (nodes t). \<forall>c\<in>set (word n). \<not> delim_byte delims_mpi c \<Longrightarrow> wire_safe t"
  unfolding wire_safe_def list_all_iff using delims_mpi_wire by blast

lemma fold_merge_file_props:
  assumes "table_ok d" "\<forall>n\<in>set (nodes d). \<forall>c\<in>set (word n). \<not> delim_byte delims_mpi c"
  shows "table_ok (foldl (merge_file_mpi fs files) d idxs) \<and>
         (\<forall>n\<in>set (nodes (foldl (merge_file_mpi fs files) d idxs)). \<forall>c\<in>set (word n). \<not> delim_byte delims_mpi c) \<and>
         (\<forall>k. counts (foldl (merge_file_mpi fs files) d idxs) k =
               counts d k + sum_list (map (\<lambda>i. file_counts fs (files ! i) k) idxs))"
  using assms
proof (induction idxs arbitrary: d)
  case Nil
  then show ?case by simp
next
  case (Cons i idxs)
  have step: "table_ok (merge_file_mpi fs files d i) \<and>
      (\<forall>n\<in>set (nodes (merge_file_mpi fs files d i)). \<forall>c\<in>set (word n). \<not> delim_byte delims_mpi c) \<and>
      (\<forall>k. counts (merge_file_mpi fs files d i) k = counts d k + file_counts fs (files ! i) k)"
  proof (cases "process_file fs (files ! i) delims_mpi")
    case None
    then show ?thesis
      using Cons.prems by (simp add: merge_file_mpi_def file_counts_def)
  next
    case (Some t)
    note T = process_file_table [OF Some]
    note M = merge_hashmaps_props [OF Cons.prems T]
    show ?thesis
      using M Some by (simp add: merge_file_mpi_def file_counts_def)
  qed
  from Cons.IH [of "merge_file_mpi fs files d i"] step show ?case
    by simp
qed

lemma local_map_mpi_props:
  "table_ok (local_map_mpi fs files r p)"
  "wire_safe (local_map_mpi fs files r p)"
  "\<forall>n\<in>set (nodes (local_map_mpi fs files r p)). \<forall>c\<in>set (word n). \<not> delim_byte delims_mpi c"
  "counts (local_map_mpi fs files r p) k =
     sum_list (map (\<lambda>i. file_counts fs (files ! i) k) (rank_indices r (length files) p))"
proof -
  have ok: "table_ok (create_hashmap HASH_TABLE_SIZE :: WordNode HashMap)"
    by (rule table_ok_create [OF HASH_TABLE_SIZE_pos])
  have q: "\<forall>n\<in>set (nodes (create_hashmap HASH_TABLE_SIZE :: WordNode HashMap)).
             \<forall>c\<in>set (word n). \<not> delim_byte delims_mpi c"
    by simp
  note F = fold_merge_file_props [OF ok q, of fs files "rank_indices r (length files) p",
      folded local_map_mpi_def]
  show "table_ok (local_map_mpi fs files r p)"
    and q': "\<forall>n\<in>set (nodes (local_map_mpi fs files r p)). \<forall>c\<in>set (word n). \<not> delim_byte delims_mpi c"
    using F by blast+
  show "wire_safe (local_map_mpi fs files r p)"
    by (rule wire_safe_delims_mpi [OF q'])
  show "counts (local_map_mpi fs files r p) k =
     sum_list (map (\<lambda>i. file_counts fs (files ! i) k) (rank_indices r (length files) p))"
    using F by simp
qed

lemma fold_merge_props:
  assumes "table_ok g" "\<forall>n\<in>set (nodes g). \<forall>c\<in>set (word n). Q c"
    and "\<forall>m\<in>set ms. table_ok m \<and> (\<forall>n\<in>set (nodes m). \<forall>c\<in>set (word n). Q c)"
  shows "table_ok (foldl (\<lambda>g m. merge_hashmaps g (Some m)) g ms) \<and>
         (\<forall>k. counts (foldl (\<lambda>g m. merge_hashmaps g (Some m)) g ms) k =
               counts g k + sum_list (map (\<lambda>m. counts m k) ms))"
  using assms
proof (induction ms arbitrary: g)
  case Nil
  then show ?case by simp
next
  case (Cons m ms)
  have m: "table_ok m" "\<forall>n\<in>set (nodes m). \<forall>c\<in>set (word n). Q c"
    using Cons.prems(3) by simp_all
  note M = merge_hashmaps_props [OF Cons.prems(1,2) m]
  have rest: "\<forall>m\<in>set ms. table_ok m \<and> (\<forall>n\<in>set (nodes m). \<forall>c\<in>set (word n). Q c)"
    using Cons.prems(3) by simp
  from Cons.IH [OF M(1,2) rest] show ?case
    by (simp add: M(3))
qed

lemma serialize_len_pos:
  assumes "serialize_hashmap m = Inr (buffer, len)"
  shows "0 < len"
proof -
  from assms obtain b w where sn: "serialize_nodes (items m * (int MAX_WORD_LEN + 12)) (nodes m) ([], 0) = Inr (b, w)"
    and res: "(buffer, len) = (if w = 0 then ([NUL], 1) else (b, w))"
    unfolding serialize_hashmap_def Let_def
    by (auto split: if_splits sum.splits)
  from serialize_nodes_Inr [OF sn] have "0 \<le> w"
    by simp
  then show ?thesis
    using res by (auto split: if_splits)
qed

lemma reconstruct_merge:
  assumes "table_ok m" "wire_safe m" "serialize_hashmap m = Inr region"
  shows "reconstruct g region = merge_hashmaps g (Some m)"
proof -
  obtain buffer len where r: "region = (buffer, len)"
    by (cases region)
  show ?thesis
    using deserialize_serialized(1) [OF assms(1,2) assms(3) [unfolded r], of g]
      serialize_len_pos [OF assms(3) [unfolded r]]
    by (simp add: reconstruct_def r)
qed

lemma gather_Inr: "gather xs = Inr ys \<Longrightarrow> xs = map Inr ys"
proof (induction xs arbitrary: ys)
  case Nil
  then show ?case by simp
next
  case (Cons x xs)
  then show ?case
    by (cases x) (auto split: sum.splits)
qed

lemma foldl_reconstruct:
  "map serialize_hashmap ms = map Inr rs \<Longrightarrow> \<forall>m\<in>set ms. table_ok m \<and> wire_safe m \<Longrightarrow>
   foldl reconstruct g rs = foldl (\<lambda>g m. merge_hashmaps g (Some m)) g ms"
proof (induction ms arbitrary: rs g)
  case Nil
  then show ?case by simp
next
  case (Cons m ms)
  then obtain r rs' where rs: "rs = r # rs'" "serialize_hashmap m = Inr r"
    "map serialize_hashmap ms = map Inr rs'"
    by (cases rs) auto
  have "reconstruct g r = merge_hashmaps g (Some m)"
    using reconstruct_merge [of m r g] rs(2) Cons.prems(2) by simp
  then show ?case
    using Cons.IH [OF rs(3), of "merge_hashmaps g (Some m)"] Cons.prems(2) rs(1) by simp
qed

section \<open>Round-robin assignment of files to ranks\<close>

lemma rank_indices_set_step:
  fixes i n p :: nat
  assumes "i < n" "0 < p"
  shows "{j. i \<le> j \<and> j < n \<and> p dvd (j - i)} = insert i {j. i + p \<le> j \<and> j < n \<and> p dvd (j - (i + p))}"
proof (intro set_eqI iffI)
  fix j assume "j \<in> {j. i \<le> j \<and> j < n \<and> p dvd (j - i)}"
  then have j: "i \<le> j" "j < n" "p dvd (j - i)" by auto
  show "j \<in> insert i {j. i + p \<le> j \<and> j < n \<and> p dvd (j - (i + p))}"
  proof (cases "j = i")
    case True then show ?thesis by simp
  next
    case False
    with j have pos: "0 < j - i" by simp
    from j(3) pos have "p \<le> j - i" by (rule dvd_imp_le)
    with j(1) have le: "i + p \<le> j" by arith
    from j(3) obtain c where c: "j - i = p * c" by (auto simp: dvd_def)
    with pos have "0 < c" by (cases c) auto
    then obtain c' where "c = Suc c'" by (cases c) auto
    with c have "j - (i + p) = p * c'" by simp
    then have "p dvd (j - (i + p))" by (metis dvd_triv_left)
    with le j show ?thesis by simp
  qed
next
  fix j assume "j \<in> insert i {j. i + p \<le> j \<and> j < n \<and> p dvd (j - (i + p))}"
  then consider "j = i" | "i + p \<le> j" "j < n" "p dvd (j - (i + p))" by auto
  then show "j \<in> {j. i \<le> j \<and> j < n \<and> p dvd (j - i)}"
  proof cases
    case 1 then show ?thesis using assms by simp
  next
    case 2
    from 2(3) obtain c where "j - (i + p) = p * c" by (auto simp: dvd_def)
    with 2(1) have "j - i = p * Suc c" by simp
    then have "p dvd (j - i)" by (metis dvd_triv_left)
    with 2 show ?thesis by simp
  qed
qed

lemma sum_list_rank_indices:
  fixes f :: "nat \<Rightarrow> int"
  assumes "0 < p"
  shows "sum_list (map f (rank_indices i n p)) = sum f {j. i \<le> j \<and> j < n \<and> p dvd (j - i)}"
  using assms
proof (induction i n p rule: rank_indices.induct)
  case (1 i n step)
  show ?case
  proof (cases "i < n")
    case True
    have fin: "finite {j. i + step \<le> j \<and> j < n \<and> step dvd (j - (i + step))}"
      by simp
    have notin: "i \<notin> {j. i + step \<le> j \<and> j < n \<and> step dvd (j - (i + step))}"
      using 1(2) by simp
    have "sum_list (map f (rank_indices i n step)) = f i + sum_list (map f (rank_indices (i + step) n step))"
      using True 1(2) by (subst rank_indices.simps) simp
    also have "\<dots> = f i + sum f {j. i + step \<le> j \<and> j < n \<and> step dvd (j - (i + step))}"
      using 1(1) True 1(2) by simp
    also have "\<dots> = sum f {j. i \<le> j \<and> j < n \<and> step dvd (j - i)}"
      unfolding rank_indices_set_step [OF True 1(2)] using fin notin by simp
    finally show ?thesis .
  next
    case False
    then have a: "rank_indices i n step = []"
      by (subst rank_indices.simps) simp
    have b: "{j. i \<le> j \<and> j < n \<and> step dvd (j - i)} = {}"
      using False by auto
    show ?thesis
      by (simp only: a b list.map sum_list.Nil sum.empty)
  qed
qed

lemma residue_class:
  fixes r n p :: nat
  assumes "r < p"
  shows "{j. r \<le> j \<and> j < n \<and> p dvd (j - r)} = {j \<in> {0..<n}. j mod p = r}"
proof (intro set_eqI iffI)
  fix j assume "j \<in> {j. r \<le> j \<and> j < n \<and> p dvd (j - r)}"
  then have j: "r \<le> j" "j < n" "p dvd (j - r)" by auto
  from j(3) obtain c where "j - r = p * c" by (auto simp: dvd_def)
  with j(1) have "j = r + p * c" by simp
  then have "j mod p = r" using assms by simp
  with j show "j \<in> {j \<in> {0..<n}. j mod p = r}" by simp
next
  fix j assume "j \<in> {j \<in> {0..<n}. j mod p = r}"
  then have j: "j < n" "j mod p = r" by auto
  have "r \<le> j" using j(2) by (metis mod_less_eq_dividend)
  moreover have "p dvd (j - r)" using j(2) by (metis dvd_minus_mod)
  ultimately show "j \<in> {j. r \<le> j \<and> j < n \<and> p dvd (j - r)}" using j by simp
qed

lemma round_robin_sum:
  fixes f :: "nat \<Rightarrow> int"
  assumes "0 < p"
  shows "sum_list (map (\<lambda>r. sum_list (map f (rank_indices r n p))) [0..<p]) = sum_list (map f [0..<n])"
proof -
  have "sum_list (map (\<lambda>r. sum_list (map f (rank_indices r n p))) [0..<p])
      = (\<Sum>r\<in>{0..<p}. sum_list (map f (rank_indices r n p)))"
    by (simp add: interv_sum_list_conv_sum_set_nat)
  also have "\<dots> = (\<Sum>r\<in>{0..<p}. sum f {j \<in> {0..<n}. j mod p = r})"
    by (rule sum.cong) (simp_all add: sum_list_rank_indices [OF assms] residue_class)
  also have "\<dots> = sum f {0..<n}"
    by (rule sum.group) (use assms in auto)
  also have "\<dots> = sum_list (map f [0..<n])"
    by (simp add: interv_sum_list_conv_sum_set_nat)
  finally show ?thesis .
qed

section \<open>The global table of the MPI program\<close>

lemma global_map_merge:
  assumes ne: "ms \<noteq> []" and ok: "\<forall>m\<in>set ms. table_ok m \<and> wire_safe m"
    and g: "gather (map serialize_hashmap ms) = Inr regions"
  shows "foldl reconstruct (merge_hashmaps g0 (Some (hd ms))) (tl regions)
       = foldl (\<lambda>g m. merge_hashmaps g (Some m)) g0 ms"
proof -
  from gather_Inr [OF g] have m: "map serialize_hashmap ms = map Inr regions" .
  then have t: "map serialize_hashmap (tl ms) = map Inr (tl regions)"
    by (simp add: map_tl)
  have okt: "\<forall>m\<in>set (tl ms). table_ok m \<and> wire_safe m"
    using ok ne by (metis list.set_sel(2))
  have "foldl (\<lambda>g m. merge_hashmaps g (Some m)) g0 ms
      = foldl (\<lambda>g m. merge_hashmaps g (Some m)) (merge_hashmaps g0 (Some (hd ms))) (tl ms)"
    using ne by (cases ms) simp_all
  with foldl_reconstruct [OF t okt] show ?thesis
    by simp
qed

lemma locals_props:
  "\<forall>m\<in>set (map (\<lambda>rank. local_map_mpi fs filenames rank p) [0..<p]). table_ok m \<and> wire_safe m"
  "\<forall>m\<in>set (map (\<lambda>rank. local_map_mpi fs filenames rank p) [0..<p]).
     table_ok m \<and> (\<forall>n\<in>set (nodes m). \<forall>c\<in>set (word n). \<not> delim_byte delims_mpi c)"
  using local_map_mpi_props(1,2,3) [of fs filenames _ p] by auto

lemma global_counts:
  assumes "0 < p"
  shows "table_ok (foldl (\<lambda>g m. merge_hashmaps g (Some m)) (create_hashmap HASH_TABLE_SIZE)
                     (map (\<lambda>rank. local_map_mpi fs filenames rank p) [0..<p]))"
    and "counts (foldl (\<lambda>g m. merge_hashmaps g (Some m)) (create_hashmap HASH_TABLE_SIZE)
                     (map (\<lambda>rank. local_map_mpi fs filenames rank p) [0..<p])) k
         = sum_list (map (\<lambda>i. file_counts fs (filenames ! i) k) [0..<length filenames])"
proof -
  have ok: "table_ok (create_hashmap HASH_TABLE_SIZE :: WordNode HashMap)"
    by (rule table_ok_create [OF HASH_TABLE_SIZE_pos])
  have q: "\<forall>n\<in>set (nodes (create_hashmap HASH_TABLE_SIZE :: WordNode HashMap)).
             \<forall>c\<in>set (word n). \<not> delim_byte delims_mpi c"
    by simp
  note F = fold_merge_props [OF ok q locals_props(2) [of fs filenames p]]
  from F show "table_ok (foldl (\<lambda>g m. merge_hashmaps g (Some m)) (create_hashmap HASH_TABLE_SIZE)
                     (map (\<lambda>rank. local_map_mpi fs filenames rank p) [0..<p]))"
    by blast
  have "counts (foldl (\<lambda>g m. merge_hashmaps g (Some m)) (create_hashmap HASH_TABLE_SIZE)
                     (map (\<lambda>rank. local_map_mpi fs filenames rank p) [0..<p])) k
      = sum_list (map (\<lambda>r. counts (local_map_mpi fs filenames r p) k) [0..<p])"
    using F by (simp add: o_def)
  also have "\<dots> = sum_list (map (\<lambda>r. sum_list (map (\<lambda>i. file_counts fs (filenames ! i) k)
                                  (rank_indices r (length filenames) p))) [0..<p])"
    by (simp only: local_map_mpi_props(4))
  also have "\<dots> = sum_list (map (\<lambda>i. file_counts fs (filenames ! i) k) [0..<length filenames])"
    by (rule round_robin_sum [OF assms])
  finally show "counts (foldl (\<lambda>g m. merge_hashmaps g (Some m)) (create_hashmap HASH_TABLE_SIZE)
                     (map (\<lambda>rank. local_map_mpi fs filenames rank p) [0..<p])) k
         = sum_list (map (\<lambda>i. file_counts fs (filenames ! i) k) [0..<length filenames])" .
qed

lemma main_mpi_Inr_D:
  assumes "main_mpi fs filenames p = Inr rows"
  shows "0 < p"
    and "rows = print_results (foldl (\<lambda>g m. merge_hashmaps g (Some m)) (create_hashmap HASH_TABLE_SIZE)
                                 (map (\<lambda>rank. local_map_mpi fs filenames rank p) [0..<p])) 10"
proof -
  from assms show p: "0 < p"
    by (auto simp: main_mpi_def split: if_splits)
  from assms obtain regions where
    g: "gather (map serialize_hashmap (map (\<lambda>rank. local_map_mpi fs filenames rank p) [0..<p])) = Inr regions"
    and rows: "rows = print_results (foldl reconstruct
                 (merge_hashmaps (create_hashmap HASH_TABLE_SIZE)
                    (Some (hd (map (\<lambda>rank. local_map_mpi fs filenames rank p) [0..<p])))) (tl regions)) 10"
    unfolding main_mpi_def Let_def by (auto split: if_splits sum.splits)
  have ne: "map (\<lambda>rank. local_map_mpi fs filenames rank p) [0..<p] \<noteq> []"
    using p by simp
  show "rows = print_results (foldl (\<lambda>g m. merge_hashmaps g (Some m)) (create_hashmap HASH_TABLE_SIZE)
                                 (map (\<lambda>rank. local_map_mpi fs filenames rank p) [0..<p])) 10"
    unfolding rows global_map_merge [OF ne locals_props(1) g] ..
qed

lemma gather_all_Inr: "\<forall>x\<in>set xs. \<exists>y. x = Inr y \<Longrightarrow> \<exists>ys. gather xs = Inr ys"
proof (induction xs)
  case Nil
  then show ?case by simp
next
  case (Cons x xs)
  then obtain y ys where "x = Inr y" "gather xs = Inr ys"
    by auto
  then show ?case by simp
qed

lemma serialize_len_bound:
  assumes ok: "table_ok m" and range: "list_all (\<lambda>n. count n < 2 ^ 31) (nodes m)"
    and ser: "serialize_hashmap m = Inr (buffer, len)"
  shows "len \<le> 111 * items m + 1"
proof -
  have "length (record_of n) \<le> 111" if "n \<in> set (nodes m)" for n
    using length_record_of [of n] table_ok_nodeD(2,3) [OF ok that] range that
    by (simp add: list_all_iff)
  from length_records_bound [OF this]
  have le: "length (concat (map record_of (nodes m))) \<le> 111 * length (nodes m)"
    by simp
  have L: "items m = int (length (nodes m))"
    using table_ok_sizeD(4) [OF ok] by simp
  from ser obtain b w where sn: "serialize_nodes (items m * (int MAX_WORD_LEN + 12)) (nodes m) ([], 0) = Inr (b, w)"
    and res: "(buffer, len) = (if w = 0 then ([NUL], 1) else (b, w))"
    unfolding serialize_hashmap_def Let_def
    by (auto split: if_splits sum.splits)
  from serialize_nodes_Inr [OF sn] have "w = int (length (concat (map record_of (nodes m))))"
    by simp
  with le L have "w \<le> 111 * items m"
    by simp
  then show ?thesis
    using res L by (auto split: if_splits)
qed

lemma regions_total:
  "map serialize_hashmap ms = map Inr regions \<Longrightarrow>
   \<forall>m\<in>set ms. table_ok m \<and> list_all (\<lambda>n. count n < 2 ^ 31) (nodes m) \<Longrightarrow>
   sum_list (map snd regions) \<le> sum_list (map (\<lambda>m. 111 * items m + 1) ms)"
proof (induction ms arbitrary: regions)
  case Nil
  then show ?case by simp
next
  case (Cons m ms)
  then obtain r rs where rs: "regions = r # rs" "serialize_hashmap m = Inr r"
    "map serialize_hashmap ms = map Inr rs"
    by (cases regions) auto
  obtain buffer len where r: "r = (buffer, len)"
    by (cases r)
  have "len \<le> 111 * items m + 1"
    using serialize_len_bound [of m buffer len] Cons.prems(2) rs(2) r by simp
  moreover have "sum_list (map snd rs) \<le> sum_list (map (\<lambda>m. 111 * items m + 1) ms)"
    using Cons.IH [OF rs(3)] Cons.prems(2) by simp
  ultimately show ?case
    using rs(1) r by simp
qed

lemma main_mpi_Inr:
  assumes ne: "filenames \<noteq> []" and p: "0 < p"
    and small: "\<forall>m\<in>set (map (\<lambda>rank. local_map_mpi fs filenames rank p) [0..<p]).
                  items m * 112 \<le> MAX_BUFFER_SIZE \<and> list_all (\<lambda>n. count n < 2 ^ 31) (nodes m)"
    and total: "sum_list (map (\<lambda>m. 111 * items m + 1)
                  (map (\<lambda>rank. local_map_mpi fs filenames rank p) [0..<p])) \<le> MAX_BUFFER_SIZE"
  shows "main_mpi fs filenames p =
           Inr (print_results (foldl (\<lambda>g m. merge_hashmaps g (Some m)) (create_hashmap HASH_TABLE_SIZE)
                                 (map (\<lambda>rank. local_map_mpi fs filenames rank p) [0..<p])) 10)"
proof -
  define locals where "locals = map (\<lambda>rank. local_map_mpi fs filenames rank p) [0..<p]"
  note P = locals_props [of fs filenames p, folded locals_def]
  note small' = small [folded locals_def]
  have "\<forall>x\<in>set (map serialize_hashmap locals). \<exists>y. x = Inr y"
    using serialize_succeeds P(1) small' by fastforce
  from gather_all_Inr [OF this] obtain regions where
    g: "gather (map serialize_hashmap locals) = Inr regions"
    by blast
  have "sum_list (map snd regions) \<le> sum_list (map (\<lambda>m. 111 * items m + 1) locals)"
    using regions_total [OF gather_Inr [OF g]] P(1) small' by simp
  with total have le: "\<not> sum_list (map snd regions) > MAX_BUFFER_SIZE"
    by (simp add: locals_def)
  have lne: "locals \<noteq> []"
    using p by (simp add: locals_def)
  have "main_mpi fs filenames p =
      Inr (print_results (foldl reconstruct (merge_hashmaps (create_hashmap HASH_TABLE_SIZE) (Some (hd locals)))
             (tl regions)) 10)"
    unfolding main_mpi_def Let_def locals_def [symmetric] using ne p g le by simp
  then have "main_mpi fs filenames p =
      Inr (print_results (foldl (\<lambda>g m. merge_hashmaps g (Some m)) (create_hashmap HASH_TABLE_SIZE) locals) 10)"
    by (simp only: global_map_merge [OF lne P(1) g])
  then show ?thesis
    unfolding locals_def .
qed

lemma mpi_rows_up_to_case:
  assumes "main_mpi fs filenames p = Inr rows" "main_mpi fs filenames q = Inr rows'"
  shows "map folded_row rows = map folded_row rows'"
proof -
  note P = main_mpi_Inr_D [OF assms(1)] and Q = main_mpi_Inr_D [OF assms(2)]
  show ?thesis
    unfolding P(2) Q(2)
    by (rule print_results_by_counts)
       (simp_all only: global_counts [OF P(1)] global_counts [OF Q(1)])
qed

section \<open>Runs of the MPI program on sample files\<close>

lemma concat_fread_chunks: "0 < n \<Longrightarrow> concat (fread_chunks n bs) = bs"
proof (induction n bs rule: fread_chunks.induct)
  case (1 n bs)
  show ?case
  proof (cases "bs = []")
    case True
    then show ?thesis by (subst fread_chunks.simps) simp
  next
    case False
    have "concat (fread_chunks n bs) = take n bs @ concat (fread_chunks n (drop n bs))"
      using False 1(2) by (subst fread_chunks.simps) simp
    also have "\<dots> = take n bs @ drop n bs"
      using 1(1) False 1(2) by simp
    finally show ?thesis by simp
  qed
qed

lemma process_file_Opened:
  "fs filename = Opened bytes False \<Longrightarrow>
   process_file fs filename delims =
     Some (scan_finish insert_word
             (foldl (scan_byte insert_word delims) ([], create_hashmap HASH_TABLE_SIZE) bytes))"
  by (simp add: process_file_def Let_def foldl_chunks concat_fread_chunks CHUNK_SIZE_def)

lemma scan_file_samples_mpi:
  "scan_finish ins (foldl (scan_byte ins delims_mpi) ([], m) ''Apple'') = ins m ''Apple''"
  "scan_finish ins (foldl (scan_byte ins delims_mpi) ([], m) ''apple'') = ins m ''apple''"
  "scan_finish ins (foldl (scan_byte ins delims_mpi) ([], m) ''x'') = ins m ''x''"
  by (simp_all add: scan_byte_def scan_finish_def delims_mpi_def LF_def CR_def NUL_def MAX_WORD_LEN_def)

lemma sample_tables:
  "insert_word (create_hashmap HASH_TABLE_SIZE) ''x''
     = \<lparr>buckets = (replicate HASH_TABLE_SIZE [])[4231 := [\<lparr>word = ''x'', count = 1\<rparr>]],
        size_hm = HASH_TABLE_SIZE, items = 1\<rparr>"
  "insert_word (create_hashmap HASH_TABLE_SIZE) ''Apple''
     = \<lparr>buckets = (replicate HASH_TABLE_SIZE [])[10943 := [\<lparr>word = ''Apple'', count = 1\<rparr>]],
        size_hm = HASH_TABLE_SIZE, items = 1\<rparr>"
  "insert_word (create_hashmap HASH_TABLE_SIZE) ''apple''
     = \<lparr>buckets = (replicate HASH_TABLE_SIZE [])[10943 := [\<lparr>word = ''apple'', count = 1\<rparr>]],
        size_hm = HASH_TABLE_SIZE, items = 1\<rparr>"
  "foldl insert_word (create_hashmap HASH_TABLE_SIZE) [''x'', ''Apple'', ''apple'']
     = \<lparr>buckets = (replicate HASH_TABLE_SIZE [])
          [4231 := [\<lparr>word = ''x'', count = 1\<rparr>], 10943 := [\<lparr>word = ''Apple'', count = 2\<rparr>]],
        size_hm = HASH_TABLE_SIZE, items = 2\<rparr>"
  "foldl insert_word (create_hashmap HASH_TABLE_SIZE) [''x'', ''Apple'', ''Apple'']
     = \<lparr>buckets = (replicate HASH_TABLE_SIZE [])
          [4231 := [\<lparr>word = ''x'', count = 1\<rparr>], 10943 := [\<lparr>word = ''Apple'', count = 2\<rparr>]],
        size_hm = HASH_TABLE_SIZE, items = 2\<rparr>"
  "foldl insert_word (create_hashmap HASH_TABLE_SIZE) [''x'', ''apple'']
     = \<lparr>buckets = (replicate HASH_TABLE_SIZE [])
          [4231 := [\<lparr>word = ''x'', count = 1\<rparr>], 10943 := [\<lparr>word = ''apple'', count = 1\<rparr>]],
        size_hm = HASH_TABLE_SIZE, items = 2\<rparr>"
  "foldl insert_word (create_hashmap HASH_TABLE_SIZE) [''x'', ''apple'', ''Apple'']
     = \<lparr>buckets = (replicate HASH_TABLE_SIZE [])
          [4231 := [\<lparr>word = ''x'', count = 1\<rparr>], 10943 := [\<lparr>word = ''apple'', count = 2\<rparr>]],
        size_hm = HASH_TABLE_SIZE, items = 2\<rparr>"
proof -
  have n: "(10943::nat) < HASH_TABLE_SIZE" "(4231::nat) < HASH_TABLE_SIZE"
    by (simp_all add: HASH_TABLE_SIZE_def)
  have cs: "c_str ''x'' = ''x''" "c_str ''Apple'' = ''Apple''" "c_str ''apple'' = ''apple''"
    by (simp_all add: c_str_def NUL_def)
  have cmp: "strncasecmp ''Apple'' ''apple'' MAX_WORD_LEN = 0" "strncasecmp ''apple'' ''Apple'' MAX_WORD_LEN = 0"
    "strncasecmp ''Apple'' ''Apple'' MAX_WORD_LEN = 0"
    by (simp_all add: MAX_WORD_LEN_def strncasecmp_numeral peek_def tolower_def NUL_def)
  show "insert_word (create_hashmap HASH_TABLE_SIZE) ''x''
     = \<lparr>buckets = (replicate HASH_TABLE_SIZE [])[4231 := [\<lparr>word = ''x'', count = 1\<rparr>]],
        size_hm = HASH_TABLE_SIZE, items = 1\<rparr>"
    using n by (simp add: insert_word_def create_hashmap_def sample_hashes cs MAX_WORD_LEN_def)
  show "insert_word (create_hashmap HASH_TABLE_SIZE) ''Apple''
     = \<lparr>buckets = (replicate HASH_TABLE_SIZE [])[10943 := [\<lparr>word = ''Apple'', count = 1\<rparr>]],
        size_hm = HASH_TABLE_SIZE, items = 1\<rparr>"
    using n by (simp add: insert_word_def create_hashmap_def sample_hashes cs MAX_WORD_LEN_def)
  show "insert_word (create_hashmap HASH_TABLE_SIZE) ''apple''
     = \<lparr>buckets = (replicate HASH_TABLE_SIZE [])[10943 := [\<lparr>word = ''apple'', count = 1\<rparr>]],
        size_hm = HASH_TABLE_SIZE, items = 1\<rparr>"
    using n by (simp add: insert_word_def create_hashmap_def sample_hashes cs MAX_WORD_LEN_def)
  show "foldl insert_word (create_hashmap HASH_TABLE_SIZE) [''x'', ''Apple'', ''apple'']
     = \<lparr>buckets = (replicate HASH_TABLE_SIZE [])
          [4231 := [\<lparr>word = ''x'', count = 1\<rparr>], 10943 := [\<lparr>word = ''Apple'', count = 2\<rparr>]],
        size_hm = HASH_TABLE_SIZE, items = 2\<rparr>"
    using n cmp by (simp add: insert_word_def create_hashmap_def sample_hashes cs) (simp add: MAX_WORD_LEN_def)
  show "foldl insert_word (create_hashmap HASH_TABLE_SIZE) [''x'', ''Apple'', ''Apple'']
     = \<lparr>buckets = (replicate HASH_TABLE_SIZE [])
          [4231 := [\<lparr>word = ''x'', count = 1\<rparr>], 10943 := [\<lparr>word = ''Apple'', count = 2\<rparr>]],
        size_hm = HASH_TABLE_SIZE, items = 2\<rparr>"
    using n cmp by (simp add: insert_word_def create_hashmap_def sample_hashes cs) (simp add: MAX_WORD_LEN_def)
  show "foldl insert_word (create_hashmap HASH_TABLE_SIZE) [''x'', ''apple'']
     = \<lparr>buckets = (replicate HASH_TABLE_SIZE [])
          [4231 := [\<lparr>word = ''x'', count = 1\<rparr>], 10943 := [\<lparr>word = ''apple'', count = 1\<rparr>]],
        size_hm = HASH_TABLE_SIZE, items = 2\<rparr>"
    using n cmp by (simp add: insert_word_def create_hashmap_def sample_hashes cs) (simp add: MAX_WORD_LEN_def)
  show "foldl insert_word (create_hashmap HASH_TABLE_SIZE) [''x'', ''apple'', ''Apple'']
     = \<lparr>buckets = (replicate HASH_TABLE_SIZE [])
          [4231 := [\<lparr>word = ''x'', count = 1\<rparr>], 10943 := [\<lparr>word = ''apple'', count = 2\<rparr>]],
        size_hm = HASH_TABLE_SIZE, items = 2\<rparr>"
    using n cmp by (simp add: insert_word_def create_hashmap_def sample_hashes cs) (simp add: MAX_WORD_LEN_def)
qed

lemma sample_nodes:
  "nodes \<lparr>buckets = (replicate HASH_TABLE_SIZE [])[4231 := a], size_hm = HASH_TABLE_SIZE, items = i\<rparr> = a"
  "nodes \<lparr>buckets = (replicate HASH_TABLE_SIZE [])[10943 := b], size_hm = HASH_TABLE_SIZE, items = i\<rparr> = b"
  "nodes \<lparr>buckets = (replicate HASH_TABLE_SIZE [])[4231 := a, 10943 := b],
          size_hm = HASH_TABLE_SIZE, items = i\<rparr> = a @ b"
proof -
  have n: "(10943::nat) < HASH_TABLE_SIZE" "(4231::nat) < HASH_TABLE_SIZE" "(4231::nat) < 10943"
    by (simp_all add: HASH_TABLE_SIZE_def)
  show "nodes \<lparr>buckets = (replicate HASH_TABLE_SIZE [])[4231 := a], size_hm = HASH_TABLE_SIZE, items = i\<rparr> = a"
    "nodes \<lparr>buckets = (replicate HASH_TABLE_SIZE [])[10943 := b], size_hm = HASH_TABLE_SIZE, items = i\<rparr> = b"
    using n by (simp_all add: nodes_record concat_replicate_update)
  show "nodes \<lparr>buckets = (replicate HASH_TABLE_SIZE [])[4231 := a, 10943 := b],
          size_hm = HASH_TABLE_SIZE, items = i\<rparr> = a @ b"
    using n by (simp add: nodes_record concat_replicate_update2)
qed

lemma sample_occurrences:
  "occurrences (insert_word (create_hashmap HASH_TABLE_SIZE) ''x'') = [''x'']"
  "occurrences (insert_word (create_hashmap HASH_TABLE_SIZE) ''Apple'') = [''Apple'']"
  "occurrences (insert_word (create_hashmap HASH_TABLE_SIZE) ''apple'') = [''apple'']"
  "occurrences (foldl insert_word (create_hashmap HASH_TABLE_SIZE) [''x'', ''Apple'', ''apple''])
     = [''x'', ''Apple'', ''Apple'']"
  "occurrences (foldl insert_word (create_hashmap HASH_TABLE_SIZE) [''x'', ''apple'']) = [''x'', ''apple'']"
  unfolding sample_tables occurrences_def sample_nodes
  by (simp_all add: numeral_2_eq_2)

lemma merge_sample_tables:
  "merge_hashmaps d (Some (insert_word (create_hashmap HASH_TABLE_SIZE) ''x'')) = insert_word d ''x''"
  "merge_hashmaps d (Some (insert_word (create_hashmap HASH_TABLE_SIZE) ''Apple'')) = insert_word d ''Apple''"
  "merge_hashmaps d (Some (insert_word (create_hashmap HASH_TABLE_SIZE) ''apple'')) = insert_word d ''apple''"
  "merge_hashmaps (create_hashmap HASH_TABLE_SIZE)
     (Some (foldl insert_word (create_hashmap HASH_TABLE_SIZE) [''x'', ''Apple'', ''apple'']))
     = foldl insert_word (create_hashmap HASH_TABLE_SIZE) [''x'', ''Apple'', ''Apple'']"
  "merge_hashmaps (create_hashmap HASH_TABLE_SIZE)
     (Some (foldl insert_word (create_hashmap HASH_TABLE_SIZE) [''x'', ''apple'']))
     = foldl insert_word (create_hashmap HASH_TABLE_SIZE) [''x'', ''apple'']"
proof -
  show "merge_hashmaps d (Some (insert_word (create_hashmap HASH_TABLE_SIZE) ''x'')) = insert_word d ''x''"
    "merge_hashmaps d (Some (insert_word (create_hashmap HASH_TABLE_SIZE) ''Apple'')) = insert_word d ''Apple''"
    "merge_hashmaps d (Some (insert_word (create_hashmap HASH_TABLE_SIZE) ''apple'')) = insert_word d ''apple''"
    by (simp_all only: merge_hashmaps_occurrences sample_occurrences(1,2,3) foldl.simps)
  show "merge_hashmaps (create_hashmap HASH_TABLE_SIZE)
     (Some (foldl insert_word (create_hashmap HASH_TABLE_SIZE) [''x'', ''Apple'', ''apple'']))
     = foldl insert_word (create_hashmap HASH_TABLE_SIZE) [''x'', ''Apple'', ''Apple'']"
    "merge_hashmaps (create_hashmap HASH_TABLE_SIZE)
     (Some (foldl insert_word (create_hashmap HASH_TABLE_SIZE) [''x'', ''apple'']))
     = foldl insert_word (create_hashmap HASH_TABLE_SIZE) [''x'', ''apple'']"
    by (simp_all only: merge_hashmaps_occurrences sample_occurrences(4,5))
qed

lemma three_files_run:
  assumes "fs ''a.txt'' = Opened ''x'' False" "fs ''b.txt'' = Opened ''Apple'' False"
    "fs ''c.txt'' = Opened ''apple'' False"
  shows "main_mpi fs [''a.txt'', ''b.txt'', ''c.txt''] 1
           = Inr [\<lparr>word = ''Apple'', count = 2\<rparr>, \<lparr>word = ''x'', count = 1\<rparr>]"
    and "main_mpi fs [''a.txt'', ''b.txt'', ''c.txt''] 2
           = Inr [\<lparr>word = ''apple'', count = 2\<rparr>, \<lparr>word = ''x'', count = 1\<rparr>]"
proof -
  have pf: "process_file fs ''a.txt'' delims_mpi = Some (insert_word (create_hashmap HASH_TABLE_SIZE) ''x'')"
    "process_file fs ''b.txt'' delims_mpi = Some (insert_word (create_hashmap HASH_TABLE_SIZE) ''Apple'')"
    "process_file fs ''c.txt'' delims_mpi = Some (insert_word (create_hashmap HASH_TABLE_SIZE) ''apple'')"
    by (simp_all only: process_file_Opened [of fs "''a.txt''", OF assms(1)]
          process_file_Opened [of fs "''b.txt''", OF assms(2)]
          process_file_Opened [of fs "''c.txt''", OF assms(3)] scan_file_samples_mpi)
  have ri: "rank_indices 0 (length [''a.txt'', ''b.txt'', ''c.txt'']) 1 = [0, 1, 2]"
    "rank_indices 0 (length [''a.txt'', ''b.txt'', ''c.txt'']) 2 = [0, 2]"
    "rank_indices 1 (length [''a.txt'', ''b.txt'', ''c.txt'']) 2 = [1]"
    by (simp_all add: rank_indices.simps)
  have l1: "local_map_mpi fs [''a.txt'', ''b.txt'', ''c.txt''] 0 1
      = foldl insert_word (create_hashmap HASH_TABLE_SIZE) [''x'', ''Apple'', ''apple'']"
    and l20: "local_map_mpi fs [''a.txt'', ''b.txt'', ''c.txt''] 0 2
      = foldl insert_word (create_hashmap HASH_TABLE_SIZE) [''x'', ''apple'']"
    and l21: "local_map_mpi fs [''a.txt'', ''b.txt'', ''c.txt''] 1 2
      = insert_word (create_hashmap HASH_TABLE_SIZE) ''Apple''"
    unfolding local_map_mpi_def ri
    by (simp_all add: merge_file_mpi_def pf merge_sample_tables(1,2,3))
  have u: "[0..<1] = [0::nat]" "[0..<2] = [0::nat, 1]"
    by (simp_all add: numeral_2_eq_2)
  have c: "strncasecmp ''x'' ''Apple'' 100 > 0" "strncasecmp ''x'' ''apple'' 100 > 0"
    by (simp_all add: strncasecmp_numeral peek_def tolower_def)
  have cs: "c_str ''x'' = ''x''" "c_str ''Apple'' = ''Apple''" "c_str ''apple'' = ''apple''"
    by (simp_all add: c_str_def NUL_def)
  have e: "foldl f g [a] = f g a" "foldl f g [a, b] = f (f g a) b"
    for f :: "WordNode HashMap \<Rightarrow> WordNode HashMap \<Rightarrow> WordNode HashMap" and g a b
    by simp_all
  have g1: "foldl (\<lambda>g m. merge_hashmaps g (Some m)) (create_hashmap HASH_TABLE_SIZE)
              (map (\<lambda>rank. local_map_mpi fs [''a.txt'', ''b.txt'', ''c.txt''] rank 1) [0..<1])
          = foldl insert_word (create_hashmap HASH_TABLE_SIZE) [''x'', ''Apple'', ''Apple'']"
    unfolding u list.map e l1 merge_sample_tables(4) ..
  have "foldl (\<lambda>g m. merge_hashmaps g (Some m)) (create_hashmap HASH_TABLE_SIZE)
              (map (\<lambda>rank. local_map_mpi fs [''a.txt'', ''b.txt'', ''c.txt''] rank 2) [0..<2])
          = insert_word (foldl insert_word (create_hashmap HASH_TABLE_SIZE) [''x'', ''apple'']) ''Apple''"
    unfolding u list.map e l20 l21 merge_sample_tables(5) merge_sample_tables(2) ..
  then have g2: "foldl (\<lambda>g m. merge_hashmaps g (Some m)) (create_hashmap HASH_TABLE_SIZE)
              (map (\<lambda>rank. local_map_mpi fs [''a.txt'', ''b.txt'', ''c.txt''] rank 2) [0..<2])
          = foldl insert_word (create_hashmap HASH_TABLE_SIZE) [''x'', ''apple'', ''Apple'']"
    by simp
  have p1: "print_results (foldl insert_word (create_hashmap HASH_TABLE_SIZE) [''x'', ''Apple'', ''Apple'']) 10
      = [\<lparr>word = ''Apple'', count = 2\<rparr>, \<lparr>word = ''x'', count = 1\<rparr>]"
    unfolding sample_tables print_results_def sample_nodes
    by (simp add: qsort_def compare_words_def cs MAX_WORD_LEN_def)
  have p2: "print_results (foldl insert_word (create_hashmap HASH_TABLE_SIZE) [''x'', ''apple'', ''Apple'']) 10
      = [\<lparr>word = ''apple'', count = 2\<rparr>, \<lparr>word = ''x'', count = 1\<rparr>]"
    unfolding sample_tables print_results_def sample_nodes
    by (simp add: qsort_def compare_words_def cs MAX_WORD_LEN_def)
  have s1: "\<forall>m\<in>set (map (\<lambda>rank. local_map_mpi fs [''a.txt'', ''b.txt'', ''c.txt''] rank 1) [0..<1]).
              items m * 112 \<le> MAX_BUFFER_SIZE \<and> list_all (\<lambda>n. count n < 2 ^ 31) (nodes m)"
    unfolding u list.map l1 sample_tables
    by (simp add: MAX_BUFFER_SIZE_def sample_nodes)
  have s2: "\<forall>m\<in>set (map (\<lambda>rank. local_map_mpi fs [''a.txt'', ''b.txt'', ''c.txt''] rank 2) [0..<2]).
              items m * 112 \<le> MAX_BUFFER_SIZE \<and> list_all (\<lambda>n. count n < 2 ^ 31) (nodes m)"
    unfolding u list.map l20 l21 sample_tables
    by (simp add: MAX_BUFFER_SIZE_def sample_nodes)
  have t1: "sum_list (map (\<lambda>m. 111 * items m + 1)
              (map (\<lambda>rank. local_map_mpi fs [''a.txt'', ''b.txt'', ''c.txt''] rank 1) [0..<1])) \<le> MAX_BUFFER_SIZE"
    unfolding u list.map l1 sample_tables
    by (simp add: MAX_BUFFER_SIZE_def)
  have t2: "sum_list (map (\<lambda>m. 111 * items m + 1)
              (map (\<lambda>rank. local_map_mpi fs [''a.txt'', ''b.txt'', ''c.txt''] rank 2) [0..<2])) \<le> MAX_BUFFER_SIZE"
    unfolding u list.map l20 l21 sample_tables
    by (simp add: MAX_BUFFER_SIZE_def)
  show "main_mpi fs [''a.txt'', ''b.txt'', ''c.txt''] 1
           = Inr [\<lparr>word = ''Apple'', count = 2\<rparr>, \<lparr>word = ''x'', count = 1\<rparr>]"
    using main_mpi_Inr [OF _ _ s1 t1] unfolding g1 p1 by simp
  show "main_mpi fs [''a.txt'', ''b.txt'', ''c.txt''] 2
           = Inr [\<lparr>word = ''apple'', count = 2\<rparr>, \<lparr>word = ''x'', count = 1\<rparr>]"
    using main_mpi_Inr [OF _ _ s2 t2] unfolding g2 p2 by simp
qed

section \<open>Tables of the OpenMP program\<close>

lemma strcmp_eq_0:
  "NUL \<notin> set s \<Longrightarrow> NUL \<notin> set t \<Longrightarrow> strcmp s t = 0 \<longleftrightarrow> s = t"
proof (induction s arbitrary: t)
  case Nil
  then show ?case
    using of_char_pos by (cases t) (auto simp: peek_def)
next
  case (Cons x s')
  show ?case
  proof (cases t)
    case Nil
    then show ?thesis
      using Cons.prems of_char_pos [of x] by (auto simp: peek_def)
  next
    case t: (Cons c t')
    have "int (of_char x) - int (of_char c) = 0 \<longleftrightarrow> x = c"
      by (metis diff_self eq_iff_diff_eq_0 of_char_eq_iff of_nat_eq_iff)
    then show ?thesis
      using Cons.IH [of t'] Cons.prems t by (auto simp: peek_def)
  qed
qed

lemma table_exact_D:
  "table_exact m \<Longrightarrow> 0 < size_hm m" "table_exact m \<Longrightarrow> length (buckets m) = size_hm m"
  "table_exact m \<Longrightarrow> nodes m = concat (buckets m)"
  "table_exact m \<Longrightarrow> distinct (map word (nodes m))"
  "table_exact m \<Longrightarrow> items m = int (length (nodes m))"
  unfolding table_exact_def by (elim conjE, simp add: nodes_concat)+

lemma table_exact_bucketD:
  assumes "table_exact m" "i < size_hm m" "n \<in> set (buckets m ! i)"
  shows "hash (word n) (size_hm m) = i \<and> NUL \<notin> set (word n) \<and> 1 \<le> count n"
  using assms unfolding table_exact_def list_all_iff by auto

lemma table_exact_I:
  assumes "0 < size_hm m" "length (buckets m) = size_hm m"
    "\<And>i n. i < size_hm m \<Longrightarrow> n \<in> set (buckets m ! i) \<Longrightarrow>
       hash (word n) (size_hm m) = i \<and> NUL \<notin> set (word n) \<and> 1 \<le> count n"
    "distinct (map word (nodes m))" "items m = int (length (nodes m))"
  shows "table_exact m"
  using assms unfolding table_exact_def by (simp add: list_all_iff)

lemma table_exact_nodeD:
  assumes "table_exact m" "n \<in> set (nodes m)"
  shows "NUL \<notin> set (word n)" "1 \<le> count n" "n \<in> set (buckets m ! hash (word n) (size_hm m))"
proof -
  from assms obtain i where i: "i < size_hm m" "n \<in> set (buckets m ! i)"
    using in_nodes_iff [OF table_exact_D(2) [OF assms(1)]] by blast
  from table_exact_bucketD [OF assms(1) i] i
  show "NUL \<notin> set (word n)" "1 \<le> count n" "n \<in> set (buckets m ! hash (word n) (size_hm m))"
    by simp_all
qed

lemma table_ok_exact: "table_ok m \<Longrightarrow> table_exact m"
proof (rule table_exact_I)
  assume ok: "table_ok m"
  show "0 < size_hm m" "length (buckets m) = size_hm m" "items m = int (length (nodes m))"
    using table_ok_sizeD [OF ok] by simp_all
  show "hash (word n) (size_hm m) = i \<and> NUL \<notin> set (word n) \<and> 1 \<le> count n"
    if "i < size_hm m" "n \<in> set (buckets m ! i)" for i n
    using table_ok_bucketD [OF ok that] by simp
  have "inj_on word (set (nodes m))"
    using table_ok_sizeD(5) [OF ok] by (auto simp: distinct_map inj_on_def)
  then show "distinct (map word (nodes m))"
    using table_ok_sizeD(5) [OF ok] by (simp add: distinct_map)
qed

lemma table_exact_create: "0 < sz \<Longrightarrow> table_exact (create_hashmap sz)"
  by (rule table_ok_exact [OF table_ok_create])

lemma exact_counts_create [simp]: "exact_counts (create_hashmap sz) w = 0"
  by (simp add: exact_counts_def)

lemma chain_add_omp_None:
  "chain_add_omp ch n = None \<longleftrightarrow> (\<forall>x\<in>set ch. strcmp (word x) (word n) \<noteq> 0)"
  by (induction ch) auto

lemma chain_add_omp_Some:
  "chain_add_omp ch n = Some ch' \<Longrightarrow>
   \<exists>j<length ch. strcmp (word (ch ! j)) (word n) = 0 \<and>
                 ch' = ch[j := (ch ! j)\<lparr>count := count (ch ! j) + count n\<rparr>]"
proof (induction ch arbitrary: ch')
  case Nil
  then show ?case by simp
next
  case (Cons x xs)
  show ?case
  proof (cases "strcmp (word x) (word n) = 0")
    case True
    then have "ch' = (x # xs)[0 := ((x # xs) ! 0)\<lparr>count := count ((x # xs) ! 0) + count n\<rparr>]"
      using Cons.prems by simp
    then show ?thesis using True by (intro exI [of _ 0]) simp
  next
    case False
    with Cons.prems obtain ys where ys: "chain_add_omp xs n = Some ys" "ch' = x # ys"
      by auto
    from Cons.IH [OF ys(1)] obtain j where j: "j < length xs" "strcmp (word (xs ! j)) (word n) = 0"
      "ys = xs[j := (xs ! j)\<lparr>count := count (xs ! j) + count n\<rparr>]"
      by blast
    then show ?thesis
      using ys(2) by (intro exI [of _ "Suc j"]) simp
  qed
qed

lemma exact_absent:
  "\<forall>n\<in>set ns. word n \<noteq> w \<Longrightarrow>
   sum_list (map (\<lambda>n. if word n = w then count n else 0) ns) = 0"
  by (induction ns) simp_all

lemma exact_present:
  "distinct (map word ns) \<Longrightarrow> n \<in> set ns \<Longrightarrow>
   sum_list (map (\<lambda>x. if word x = word n then count x else 0) ns) = count n"
proof (induction ns)
  case Nil
  then show ?case by simp
next
  case (Cons a ns)
  show ?case
  proof (cases "n = a")
    case True
    have "\<forall>x\<in>set ns. word x \<noteq> word a"
      using Cons.prems(1) by (fastforce simp: image_iff)
    from exact_absent [OF this] show ?thesis
      using True by simp
  next
    case False
    then have n: "n \<in> set ns"
      using Cons.prems(2) by simp
    then have "word a \<noteq> word n"
      using Cons.prems(1) by (fastforce simp: image_iff)
    then show ?thesis
      using Cons.IH [OF _ n] Cons.prems(1) by simp
  qed
qed

lemma merge_node_omp_props:
  fixes d :: "WordNode_omp HashMap"
  assumes ex: "table_exact d" and nul: "NUL \<notin> set (word n)" and c: "1 \<le> count n"
  shows "table_exact (merge_node_omp d n)"
    and "exact_counts (merge_node_omp d n) w = exact_counts d w + (if word n = w then count n else 0)"
proof -
  define h where "h = hash (word n) (size_hm d)"
  define bs where "bs = buckets d"
  define m' where "m' = merge_node_omp d n"
  define f where "f = (\<lambda>x :: WordNode_omp. if word x = w then count x else 0)"
  have lenb: "length bs = size_hm d"
    unfolding bs_def by (rule table_exact_D(2) [OF ex])
  have h_lt: "h < length bs"
    unfolding h_def lenb using table_exact_D(1) [OF ex] by (rule hash_less)
  have nm: "nodes d = concat bs"
    unfolding bs_def by (rule table_exact_D(3) [OF ex])
  have bD: "hash (word x) (size_hm d) = i \<and> NUL \<notin> set (word x) \<and> 1 \<le> count x"
    if "i < size_hm d" "x \<in> set (bs ! i)" for i x
    using table_exact_bucketD [OF ex that(1)] that(2) by (simp add: bs_def)
  have "table_exact m' \<and>
        sum_list (map f (nodes m')) = sum_list (map f (nodes d)) + (if word n = w then count n else 0)"
  proof (cases "chain_add_omp (bs ! h) n")
    case None
    define new :: WordNode_omp
      where "new = \<lparr>word = c_str (word n), count = count n, hash_omp = hash_omp n\<rparr>"
    have eq: "m' = d\<lparr>buckets := bs[h := new # bs ! h], items := items d + 1\<rparr>"
      using None unfolding m'_def merge_node_omp_def h_def [symmetric] bs_def [symmetric] new_def
      by simp
    have wnew: "word new = word n" "count new = count n"
      using nul by (simp_all add: new_def c_str_id)
    have nm2: "nodes d = concat (take h bs) @ bs ! h @ concat (drop (Suc h) bs)"
      using concat_split [OF h_lt] nm by simp
    have nm': "nodes m' = concat (take h bs) @ (new # bs ! h) @ concat (drop (Suc h) bs)"
      using concat_update [OF h_lt, of "new # bs ! h"] lenb by (simp add: eq nodes_concat)
    have fresh: "word x \<noteq> word n" if x: "x \<in> set (nodes d)" for x
    proof
      assume e: "word x = word n"
      have "x \<in> set (bs ! h)"
        using table_exact_nodeD(3) [OF ex x] e by (simp add: h_def bs_def)
      then have "strcmp (word x) (word n) \<noteq> 0"
        using None by (simp add: chain_add_omp_None)
      then show False
        using strcmp_eq_0 [of "word x" "word n"] nul e by simp
    qed
    have "table_exact m'"
    proof (rule table_exact_I)
      show "0 < size_hm m'" "length (buckets m') = size_hm m'"
        using table_exact_D(1) [OF ex] lenb by (simp_all add: eq)
      show "hash (word x) (size_hm m') = i \<and> NUL \<notin> set (word x) \<and> 1 \<le> count x"
        if "i < size_hm m'" "x \<in> set (buckets m' ! i)" for i x
      proof (cases "i = h")
        case True
        then have "x = new \<or> x \<in> set (bs ! h)"
          using that h_lt by (simp add: eq)
        then show ?thesis
          using bD [of h x] h_lt lenb wnew nul c True by (auto simp: eq h_def)
      next
        case False
        then have "x \<in> set (bs ! i)"
          using that by (simp add: eq)
        then show ?thesis
          using bD [of i x] that(1) by (simp add: eq)
      qed
      have d0: "distinct (map word (concat (take h bs) @ (bs ! h @ concat (drop (Suc h) bs))))"
        using table_exact_D(4) [OF ex] unfolding nm2 .
      have "word new \<notin> word ` set (nodes d)"
        using fresh wnew(1) by (metis imageE)
      then have notin: "word new \<notin> word ` set (concat (take h bs) @ (bs ! h @ concat (drop (Suc h) bs)))"
        unfolding nm2 .
      have "distinct (map word (concat (take h bs) @ new # (bs ! h @ concat (drop (Suc h) bs))))"
        by (rule distinct_map_insert_middle [OF d0 notin])
      then show "distinct (map word (nodes m'))"
        by (simp add: nm')
      show "items m' = int (length (nodes m'))"
        using table_exact_D(5) [OF ex] unfolding nm' by (simp add: eq nm2)
    qed
    moreover have "sum_list (map f (nodes m')) = sum_list (map f (nodes d)) + f new"
      unfolding nm' nm2 by simp
    moreover have "f new = (if word n = w then count n else 0)"
      by (simp add: f_def wnew)
    ultimately show ?thesis
      by simp
  next
    case (Some ch')
    from chain_add_omp_Some [OF Some] obtain j where j: "j < length (bs ! h)"
      "strcmp (word (bs ! h ! j)) (word n) = 0"
      "ch' = (bs ! h)[j := (bs ! h ! j)\<lparr>count := count (bs ! h ! j) + count n\<rparr>]"
      by blast
    define x where "x = bs ! h ! j"
    define x' where "x' = x\<lparr>count := count x + count n\<rparr>"
    have eq: "m' = d\<lparr>buckets := bs[h := (bs ! h)[j := x']]\<rparr>"
      using Some j(3) unfolding m'_def merge_node_omp_def h_def [symmetric] bs_def [symmetric] x'_def x_def
      by simp
    define J where "J = length (concat (take h bs)) + j"
    note cu = concat_update_update(1) [OF h_lt j(1), of x', folded J_def]
      concat_update_update(2,3) [OF h_lt j(1), folded J_def]
    have nm': "nodes m' = (nodes d)[J := x']"
      using cu(1) nm lenb by (simp add: eq nodes_concat)
    have Jn: "nodes d ! J = x" "J < length (nodes d)"
      using cu(2,3) nm by (simp_all add: x_def)
    have xb: "x \<in> set (bs ! h)"
      unfolding x_def using j(1) by simp
    note xD = bD [OF h_lt [unfolded lenb] xb]
    have xw: "word x = word n"
      using strcmp_eq_0 [of "word x" "word n"] xD nul j(2) by (simp add: x_def)
    have "table_exact m'"
    proof (rule table_exact_I)
      show "0 < size_hm m'" "length (buckets m') = size_hm m'"
        using table_exact_D(1) [OF ex] lenb by (simp_all add: eq)
      show "hash (word y) (size_hm m') = i \<and> NUL \<notin> set (word y) \<and> 1 \<le> count y"
        if "i < size_hm m'" "y \<in> set (buckets m' ! i)" for i y
      proof (cases "i = h")
        case True
        then have "y \<in> set ((bs ! h)[j := x'])"
          using that h_lt by (simp add: eq)
        then have "y = x' \<or> y \<in> set (bs ! h)"
          using set_update_subset_insert [of "bs ! h" j x'] by auto
        then show ?thesis
          using bD [of h y] h_lt lenb xD c True by (auto simp: eq x'_def)
      next
        case False
        then have "y \<in> set (bs ! i)"
          using that by (simp add: eq)
        then show ?thesis
          using bD [of i y] that(1) by (simp add: eq)
      qed
      have "map word ((nodes d)[J := x']) = (map word (nodes d))[J := word x]"
        by (simp add: map_update x'_def)
      also have "\<dots> = map word (nodes d)"
        using Jn by (metis list_update_id map_update)
      finally show "distinct (map word (nodes m'))"
        using table_exact_D(4) [OF ex] by (simp add: nm')
      show "items m' = int (length (nodes m'))"
        using table_exact_D(5) [OF ex] unfolding nm' by (simp add: eq)
    qed
    moreover have "sum_list (map f (nodes m')) = sum_list (map f (nodes d)) - f x + f x'"
      unfolding nm' using sum_list_map_update [OF Jn(2), of f x'] Jn(1) by simp
    moreover have "f x' - f x = (if word n = w then count n else 0)"
      by (simp add: f_def x'_def xw)
    ultimately show ?thesis
      by simp
  qed
  then show "table_exact (merge_node_omp d n)"
    and "exact_counts (merge_node_omp d n) w = exact_counts d w + (if word n = w then count n else 0)"
    unfolding exact_counts_def m'_def f_def by simp_all
qed

lemma merge_nodes_omp_props:
  fixes d :: "WordNode_omp HashMap"
  assumes "table_exact d" "\<forall>n\<in>set ns. NUL \<notin> set (word n) \<and> 1 \<le> count n"
  shows "table_exact (foldl merge_node_omp d ns) \<and>
         (\<forall>w. exact_counts (foldl merge_node_omp d ns) w =
               exact_counts d w + sum_list (map (\<lambda>n. if word n = w then count n else 0) ns))"
  using assms
proof (induction ns arbitrary: d)
  case Nil
  then show ?case by simp
next
  case (Cons n ns)
  have n: "NUL \<notin> set (word n)" "1 \<le> count n"
    using Cons.prems(2) by simp_all
  note M = merge_node_omp_props [OF Cons.prems(1) n]
  from Cons.IH [OF M(1)] Cons.prems(2) show ?case
    by (simp add: M(2))
qed

lemma merge_hashmaps_omp_props:
  fixes d s :: "WordNode_omp HashMap"
  assumes "table_exact d" "table_exact s"
  shows "table_exact (merge_hashmaps_omp d s)"
    and "exact_counts (merge_hashmaps_omp d s) w = exact_counts d w + exact_counts s w"
  using merge_nodes_omp_props [OF assms(1), of "nodes s"] table_exact_nodeD(1,2) [OF assms(2)]
  unfolding merge_hashmaps_omp_def exact_counts_def by simp_all

lemma table_ok_insert_word_omp:
  "table_ok m \<Longrightarrow> length (c_str w) < MAX_WORD_LEN \<Longrightarrow> table_ok (insert_word_omp m w)"
  unfolding insert_word_omp_with by (rule table_ok_insert_with) simp_all

lemma scan_invariant_omp:
  assumes "length wb < MAX_WORD_LEN" "table_ok m"
  shows "case foldl (scan_byte insert_word_omp delims) (wb, m) bs of (wb', m') \<Rightarrow>
           length wb' < MAX_WORD_LEN \<and> table_ok m'"
  using assms
proof (induction bs arbitrary: wb m)
  case Nil
  then show ?case by simp
next
  case (Cons b bs)
  obtain wb1 m1 where st: "scan_byte insert_word_omp delims (wb, m) b = (wb1, m1)"
    by (cases "scan_byte insert_word_omp delims (wb, m) b")
  have cs: "length (c_str wb) < MAX_WORD_LEN"
    using Cons.prems(1) length_takeWhile_le [of "\<lambda>c. c \<noteq> NUL" wb]
    unfolding c_str_def by (rule_tac le_less_trans)
  have ins: "table_ok (insert_word_omp m wb)"
    by (rule table_ok_insert_word_omp [OF Cons.prems(2) cs])
  have "length wb1 < MAX_WORD_LEN \<and> table_ok m1"
    using st Cons.prems ins
    by (auto simp: scan_byte_def MAX_WORD_LEN_def split: if_splits)
  then show ?case
    using Cons.IH [of wb1 m1] st by simp
qed

lemma process_file_sync_table:
  assumes "process_file_sync fs filename delims = Some t"
  shows "table_ok t"
proof -
  from assms obtain bytes where
    t: "t = scan_finish insert_word_omp
             (foldl (scan_byte insert_word_omp delims) ([], create_hashmap HASH_TABLE_SIZE) bytes)"
    by (auto simp: process_file_sync_def split: input_file.splits)
  obtain wb m where st: "foldl (scan_byte insert_word_omp delims) ([], create_hashmap HASH_TABLE_SIZE) bytes
      = (wb, m)"
    by (cases "foldl (scan_byte insert_word_omp delims) ([], create_hashmap HASH_TABLE_SIZE) bytes")
  have inv: "length wb < MAX_WORD_LEN \<and> table_ok m"
    using scan_invariant_omp [of "[]" "create_hashmap HASH_TABLE_SIZE" delims bytes]
      table_ok_create [OF HASH_TABLE_SIZE_pos] st
    by (simp add: MAX_WORD_LEN_def)
  have cs: "length (c_str wb) < MAX_WORD_LEN"
    using inv length_takeWhile_le [of "\<lambda>c. c \<noteq> NUL" wb]
    unfolding c_str_def by (metis le_less_trans)
  show ?thesis
    unfolding t st scan_finish_def using inv table_ok_insert_word_omp [OF _ cs] by simp
qed

lemma fold_merge_file_omp_props:
  assumes "table_exact d"
  shows "table_exact (foldl (merge_file_omp fs delims) d fns) \<and>
         (\<forall>w. exact_counts (foldl (merge_file_omp fs delims) d fns) w =
               exact_counts d w + sum_list (map (\<lambda>f. file_counts_omp fs f delims w) fns))"
  using assms
proof (induction fns arbitrary: d)
  case Nil
  then show ?case by simp
next
  case (Cons f fns)
  have step: "table_exact (merge_file_omp fs delims d f) \<and>
      (\<forall>w. exact_counts (merge_file_omp fs delims d f) w = exact_counts d w + file_counts_omp fs f delims w)"
  proof (cases "process_file_sync fs f delims")
    case None
    then show ?thesis
      using Cons.prems by (simp add: merge_file_omp_def file_counts_omp_def)
  next
    case (Some t)
    note T = table_ok_exact [OF process_file_sync_table [OF Some]]
    note M = merge_hashmaps_omp_props [OF Cons.prems T]
    show ?thesis
      using M Some by (simp add: merge_file_omp_def file_counts_omp_def)
  qed
  from Cons.IH [of "merge_file_omp fs delims d f"] step show ?case
    by simp
qed

lemma process_files_sync_props:
  "table_exact (process_files_sync fs filenames delims)"
  "exact_counts (process_files_sync fs filenames delims) w
     = sum_list (map (\<lambda>f. file_counts_omp fs f delims w) filenames)"
  using fold_merge_file_omp_props [OF table_exact_create [OF HASH_TABLE_SIZE_pos], of fs delims filenames]
  unfolding process_files_sync_def by simp_all

lemma local_map_omp_props:
  "table_exact (local_map_omp fs filenames delims owner t)"
  "exact_counts (local_map_omp fs filenames delims owner t) w
     = sum_list (map (\<lambda>i. file_counts_omp fs (filenames ! i) delims w)
                   (filter (\<lambda>i. owner ! i = t) [0..<length filenames]))"
  using fold_merge_file_omp_props [OF table_exact_create [OF HASH_TABLE_SIZE_pos], of fs delims
      "map (\<lambda>i. filenames ! i) (filter (\<lambda>i. owner ! i = t) [0..<length filenames])"]
  unfolding local_map_omp_def by (simp_all add: o_def)

lemma fold_merge_omp_props:
  fixes g :: "WordNode_omp HashMap"
  assumes "table_exact g" "\<And>t. table_exact (L t)"
  shows "table_exact (foldl (\<lambda>g t. merge_hashmaps_omp g (L t)) g order) \<and>
         (\<forall>w. exact_counts (foldl (\<lambda>g t. merge_hashmaps_omp g (L t)) g order) w =
               exact_counts g w + sum_list (map (\<lambda>t. exact_counts (L t) w) order))"
  using assms(1)
proof (induction order arbitrary: g)
  case Nil
  then show ?case by simp
next
  case (Cons t order)
  note M = merge_hashmaps_omp_props [OF Cons.prems assms(2) [of t]]
  from Cons.IH [OF M(1)] show ?case
    by (simp add: M(2))
qed

lemma schedule_sum:
  fixes g :: "nat \<Rightarrow> int"
  assumes "schedule_ok n T owner order"
  shows "sum_list (map (\<lambda>t. sum_list (map g (filter (\<lambda>i. owner ! i = t) [0..<n]))) order)
       = sum_list (map g [0..<n])"
proof -
  from assms have len: "length owner = n" and own: "\<forall>t\<in>set owner. t < T"
    and lo: "length order = T" and d: "distinct order" and ord: "\<forall>t\<in>set order. t < T"
    by (simp_all add: schedule_ok_def list_all_iff)
  have "card (set order) = T"
    using distinct_card [OF d] lo by simp
  moreover have "set order \<subseteq> {0..<T}"
    using ord by auto
  ultimately have so: "set order = {0..<T}"
    by (intro card_subset_eq) simp_all
  have img: "(\<lambda>i. owner ! i) ` {0..<n} \<subseteq> {0..<T}"
    using own len by auto
  have inner: "sum_list (map g (filter (\<lambda>i. owner ! i = t) [0..<n]))
      = sum g {i. i \<in> {0..<n} \<and> owner ! i = t}" for t
  proof -
    have "sum_list (map g (filter (\<lambda>i. owner ! i = t) [0..<n]))
        = sum g (set (filter (\<lambda>i. owner ! i = t) [0..<n]))"
      by (rule sum_list_distinct_conv_sum_set) simp
    also have "set (filter (\<lambda>i. owner ! i = t) [0..<n]) = {i. i \<in> {0..<n} \<and> owner ! i = t}"
      by auto
    finally show ?thesis .
  qed
  have "sum_list (map (\<lambda>t. sum_list (map g (filter (\<lambda>i. owner ! i = t) [0..<n]))) order)
      = (\<Sum>t\<in>set order. sum_list (map g (filter (\<lambda>i. owner ! i = t) [0..<n])))"
    by (rule sum_list_distinct_conv_sum_set [OF d])
  also have "\<dots> = (\<Sum>t\<in>{0..<T}. sum g {i. i \<in> {0..<n} \<and> owner ! i = t})"
    unfolding so by (simp only: inner)
  also have "\<dots> = sum g {0..<n}"
    by (rule sum.group [OF _ _ img]) simp_all
  also have "\<dots> = sum_list (map g [0..<n])"
    by (simp add: interv_sum_list_conv_sum_set_nat)
  finally show ?thesis .
qed

lemma map_nth_files: "map (\<lambda>i. f (xs ! i)) [0..<length xs] = map f xs"
  by (rule nth_equalityI) simp_all

lemma process_files_parallel_props:
  assumes "schedule_ok (length filenames) T owner order"
  shows "table_exact (process_files_parallel fs filenames delims owner order)"
    and "exact_counts (process_files_parallel fs filenames delims owner order) w
         = exact_counts (process_files_sync fs filenames delims) w"
proof -
  note F = fold_merge_omp_props [OF table_exact_create [OF HASH_TABLE_SIZE_pos],
      of "local_map_omp fs filenames delims owner" order, OF local_map_omp_props(1),
      folded process_files_parallel_def]
  from F show "table_exact (process_files_parallel fs filenames delims owner order)"
    by blast
  have "exact_counts (process_files_parallel fs filenames delims owner order) w
      = sum_list (map (\<lambda>t. exact_counts (local_map_omp fs filenames delims owner t) w) order)"
    using F by simp
  also have "\<dots> = sum_list (map (\<lambda>t. sum_list (map (\<lambda>i. file_counts_omp fs (filenames ! i) delims w)
                   (filter (\<lambda>i. owner ! i = t) [0..<length filenames]))) order)"
    by (simp only: local_map_omp_props(2))
  also have "\<dots> = sum_list (map (\<lambda>i. file_counts_omp fs (filenames ! i) delims w) [0..<length filenames])"
    by (rule schedule_sum [OF assms])
  also have "\<dots> = sum_list (map (\<lambda>f. file_counts_omp fs f delims w) filenames)"
    using map_nth_files [of "\<lambda>f. file_counts_omp fs f delims w" filenames] by simp
  finally show "exact_counts (process_files_parallel fs filenames delims owner order) w
         = exact_counts (process_files_sync fs filenames delims) w"
    by (simp only: process_files_sync_props(2))
qed

section \<open>Ranking in the OpenMP program\<close>

lemma exact_rows_by_counts:
  assumes "table_exact m"
  shows "set (map (\<lambda>n. (word n, count n)) (nodes m)) = {(w, c). 1 \<le> c \<and> exact_counts m w = c}"
proof (intro set_eqI iffI)
  fix x
  assume "x \<in> set (map (\<lambda>n. (word n, count n)) (nodes m))"
  then obtain n where n: "n \<in> set (nodes m)" "x = (word n, count n)"
    by auto
  have "exact_counts m (word n) = count n"
    unfolding exact_counts_def by (rule exact_present [OF table_exact_D(4) [OF assms] n(1)])
  then show "x \<in> {(w, c). 1 \<le> c \<and> exact_counts m w = c}"
    using n table_exact_nodeD(2) [OF assms n(1)] by simp
next
  fix x
  assume "x \<in> {(w, c). 1 \<le> c \<and> exact_counts m w = c}"
  then obtain w c where x: "x = (w, c)" "1 \<le> c" "exact_counts m w = c"
    by auto
  have "\<exists>n\<in>set (nodes m). word n = w"
  proof (rule ccontr)
    assume "\<not> (\<exists>n\<in>set (nodes m). word n = w)"
    then have "\<forall>n\<in>set (nodes m). word n \<noteq> w"
      by blast
    from exact_absent [OF this] show False
      using x(2,3) by (simp add: exact_counts_def)
  qed
  then obtain n where n: "n \<in> set (nodes m)" "word n = w"
    by blast
  have "exact_counts m (word n) = count n"
    unfolding exact_counts_def by (rule exact_present [OF table_exact_D(4) [OF assms] n(1)])
  then have "(word n, count n) = x"
    using x n(2) by simp
  then show "x \<in> set (map (\<lambda>n. (word n, count n)) (nodes m))"
    using n(1) by force
qed

lemma print_results_omp_by_counts:
  fixes m1 m2 :: "WordNode_omp HashMap"
  assumes ex1: "table_exact m1" and ex2: "table_exact m2"
    and eq: "\<And>w. exact_counts m1 w = exact_counts m2 w"
  shows "print_results_omp m1 t = print_results_omp m2 t"
proof -
  define rows :: "WordNode_omp HashMap \<Rightarrow> WordFreq list"
    where "rows = (\<lambda>m. map (\<lambda>current. \<lparr>word = word current, count = count current\<rparr>) (nodes m))"
  have rows_alt: "rows m = map (\<lambda>p. \<lparr>word = fst p, count = snd p\<rparr>) (map (\<lambda>n. (word n, count n)) (nodes m))"
    for m
    by (simp add: rows_def)
  have S: "set (rows m1) = set (rows m2)"
    unfolding rows_alt set_map exact_rows_by_counts [OF ex1, unfolded set_map]
      exact_rows_by_counts [OF ex2, unfolded set_map]
    using eq by simp
  have nul: "NUL \<notin> set (word r)" if "table_exact m" "r \<in> set (rows m)" for m r
    using that table_exact_nodeD(1) [OF that(1)] by (auto simp: rows_def)
  have q: "qsort compare_words_omp (rows m) = sort_key rank_key_omp (rows m)" if "table_exact m" for m
    by (rule qsort_sort_key) (use nul [OF that] compare_words_omp_rank_key in blast)
  have inj: "inj (rank_key_omp :: WordFreq \<Rightarrow> int \<times> string)"
    by (rule injI) (simp add: rank_key_omp_def)
  have drows: "distinct (rows m)" if "table_exact m" for m
  proof -
    have "map word (rows m) = map word (nodes m)"
      by (simp add: rows_def o_def)
    then have "distinct (map word (rows m))"
      using table_exact_D(4) [OF that] by simp
    then show ?thesis
      by (simp add: distinct_map)
  qed
  have dist: "distinct (map rank_key_omp (sort_key rank_key_omp (rows m)))" if "table_exact m" for m
    using drows [OF that] inj by (simp add: distinct_map inj_on_def inj_def)
  have "map rank_key_omp (sort_key rank_key_omp (rows m1)) = map rank_key_omp (sort_key rank_key_omp (rows m2))"
    by (rule sorted_distinct_set_unique)
       (simp_all add: dist [OF ex1] dist [OF ex2] S)
  then have sorted_eq: "sort_key rank_key_omp (rows m1) = sort_key rank_key_omp (rows m2)"
    using inj by (simp add: inj_map_eq_map)
  have "length (rows m1) = card (set (rows m1))"
    using distinct_card [OF drows [OF ex1]] by simp
  also have "\<dots> = length (rows m2)"
    unfolding S using distinct_card [OF drows [OF ex2]] by simp
  finally have "length (nodes m1) = length (nodes m2)"
    by (simp add: rows_def)
  then have items: "items m1 = items m2"
    using table_exact_D(5) [OF ex1] table_exact_D(5) [OF ex2] by simp
  have p: "print_results_omp m t = take (nat (min (items m) t)) (qsort compare_words_omp (rows m))" for m
    by (simp add: print_results_omp_def rows_def)
  show ?thesis
    unfolding p q [OF ex1] q [OF ex2] sorted_eq items ..
qed

lemma omp_schedule_invariant:
  assumes "schedule_ok (length filenames) T owner order"
  shows "print_results_omp (process_files_parallel fs filenames delims owner order) top_n
       = print_results_omp (process_files_sync fs filenames delims) top_n"
  by (rule print_results_omp_by_counts
        [OF process_files_parallel_props(1) [OF assms] process_files_sync_props(1)
            process_files_parallel_props(2) [OF assms]])

section \<open>Partition invariance\<close>

text \<open>
  Claim C2 (partition invariance), as stated, at an input where it fails: three files
  with the contents \<open>x\<close>, \<open>Apple\<close> and \<open>apple\<close>. One process reads them in order and meets
  \<open>Apple\<close> first. With two processes rank 0 reads the first and the third file, rank 1 the
  second, and rank 0 merges its own table first: the global table keeps \<open>apple\<close>. The two
  ranked lists have the same counts and differ in the spelling that is printed.
\<close>

theorem mpi_partition_changes_spelling:
  "main_mpi (\<lambda>name. if name = ''a.txt'' then Opened ''x'' False
                     else if name = ''b.txt'' then Opened ''Apple'' False
                     else if name = ''c.txt'' then Opened ''apple'' False else Unopenable)
      [''a.txt'', ''b.txt'', ''c.txt''] 1
     = Inr [\<lparr>word = ''Apple'', count = 2\<rparr>, \<lparr>word = ''x'', count = 1\<rparr>] \<and>
   main_mpi (\<lambda>name. if name = ''a.txt'' then Opened ''x'' False
                     else if name = ''b.txt'' then Opened ''Apple'' False
                     else if name = ''c.txt'' then Opened ''apple'' False else Unopenable)
      [''a.txt'', ''b.txt'', ''c.txt''] 2
     = Inr [\<lparr>word = ''apple'', count = 2\<rparr>, \<lparr>word = ''x'', count = 1\<rparr>] \<and>
   main_mpi (\<lambda>name. if name = ''a.txt'' then Opened ''x'' False
                     else if name = ''b.txt'' then Opened ''Apple'' False
                     else if name = ''c.txt'' then Opened ''apple'' False else Unopenable)
      [''a.txt'', ''b.txt'', ''c.txt''] 1
     \<noteq> main_mpi (\<lambda>name. if name = ''a.txt'' then Opened ''x'' False
                     else if name = ''b.txt'' then Opened ''Apple'' False
                     else if name = ''c.txt'' then Opened ''apple'' False else Unopenable)
      [''a.txt'', ''b.txt'', ''c.txt''] 2"
proof -
  define fs where "fs = (\<lambda>name. if name = ''a.txt'' then Opened ''x'' False
                     else if name = ''b.txt'' then Opened ''Apple'' False
                     else if name = ''c.txt'' then Opened ''apple'' False else Unopenable)"
  have f: "fs ''a.txt'' = Opened ''x'' False" "fs ''b.txt'' = Opened ''Apple'' False"
    "fs ''c.txt'' = Opened ''apple'' False"
    by (simp_all add: fs_def)
  note R = three_files_run [OF f]
  have "main_mpi fs [''a.txt'', ''b.txt'', ''c.txt''] 1 \<noteq> main_mpi fs [''a.txt'', ''b.txt'', ''c.txt''] 2"
    unfolding R by simp
  with R show ?thesis
    unfolding fs_def by simp
qed

text \<open>
  Claim C2 (partition invariance), as amended. In the OpenMP program every schedule (a
  thread for each file, and an order in which the threads merge their tables into the
  global one) prints exactly the ranked list of the sequential \<open>process_files_sync\<close>. In the
  MPI program, when the runs with \<open>p\<close> and with \<open>q\<close> processes over the same files both print
  a ranked list, the two lists have the same length and agree row by row on the count and
  on the case-folded word; the spelling that is printed is the one the global table met
  first, which depends on the number of processes.
\<close>

theorem partition_invariance:
  "(schedule_ok (length filenames) num_threads owner order \<longrightarrow>
      print_results_omp (process_files_parallel fs filenames delimiters owner order) top_n
        = print_results_omp (process_files_sync fs filenames delimiters) top_n) \<and>
   (main_mpi fs filenames p = Inr rows \<longrightarrow> main_mpi fs filenames q = Inr rows' \<longrightarrow>
      map folded_row rows = map folded_row rows')"
  using omp_schedule_invariant [of filenames num_threads owner order fs delimiters top_n]
    mpi_rows_up_to_case [of fs filenames p rows q rows']
  by blast

theorem partition_invariance_witness:
  "schedule_ok (length [''a.txt'', ''b.txt'', ''c.txt'']) 2 [0, 1, 0] [1, 0] \<and>
   print_results_omp
     (process_files_parallel
        (\<lambda>name. if name = ''a.txt'' then Opened ''x'' False
                 else if name = ''b.txt'' then Opened ''Apple'' False
                 else if name = ''c.txt'' then Opened ''apple'' False else Unopenable)
        [''a.txt'', ''b.txt'', ''c.txt''] '' ,.!?;:'' [0, 1, 0] [1, 0]) 10
     = print_results_omp
         (process_files_sync
            (\<lambda>name. if name = ''a.txt'' then Opened ''x'' False
                     else if name = ''b.txt'' then Opened ''Apple'' False
                     else if name = ''c.txt'' then Opened ''apple'' False else Unopenable)
            [''a.txt'', ''b.txt'', ''c.txt''] '' ,.!?;:'') 10 \<and>
   main_mpi (\<lambda>name. if name = ''a.txt'' then Opened ''x'' False
                     else if name = ''b.txt'' then Opened ''Apple'' False
                     else if name = ''c.txt'' then Opened ''apple'' False else Unopenable)
      [''a.txt'', ''b.txt'', ''c.txt''] 2
     = Inr [\<lparr>word = ''apple'', count = 2\<rparr>, \<lparr>word = ''x'', count = 1\<rparr>] \<and>
   main_mpi (\<lambda>name. if name = ''a.txt'' then Opened ''x'' False
                     else if name = ''b.txt'' then Opened ''Apple'' False
                     else if name = ''c.txt'' then Opened ''apple'' False else Unopenable)
      [''a.txt'', ''b.txt'', ''c.txt''] 1
     = Inr [\<lparr>word = ''Apple'', count = 2\<rparr>, \<lparr>word = ''x'', count = 1\<rparr>] \<and>
   map folded_row [\<lparr>word = ''apple'', count = 2\<rparr>, \<lparr>word = ''x'', count = 1\<rparr>]
     = map folded_row [\<lparr>word = ''Apple'', count = 2\<rparr>, \<lparr>word = ''x'', count = 1\<rparr> :: WordNode]"
proof -
  define fs where "fs = (\<lambda>name. if name = ''a.txt'' then Opened ''x'' False
                     else if name = ''b.txt'' then Opened ''Apple'' False
                     else if name = ''c.txt'' then Opened ''apple'' False else Unopenable)"
  have f: "fs ''a.txt'' = Opened ''x'' False" "fs ''b.txt'' = Opened ''Apple'' False"
    "fs ''c.txt'' = Opened ''apple'' False"
    by (simp_all add: fs_def)
  note R = three_files_run [OF f]
  have s: "schedule_ok (length [''a.txt'', ''b.txt'', ''c.txt'']) 2 [0, 1, 0] [1, 0]"
    by (simp add: schedule_ok_def)
  note P = partition_invariance [of "[''a.txt'', ''b.txt'', ''c.txt'']" 2 "[0, 1, 0]" "[1, 0]" fs
      "'' ,.!?;:''" 10 2 "[\<lparr>word = ''apple'', count = 2\<rparr>, \<lparr>word = ''x'', count = 1\<rparr>]" 1
      "[\<lparr>word = ''Apple'', count = 2\<rparr>, \<lparr>word = ''x'', count = 1\<rparr>]"]
  from P s R show ?thesis
    unfolding fs_def by blast
qed

end
